theory Spec2Isabelle
  imports Main "HOL-Library.Sublist"
begin

section \<open>Python strings and the regular expressions of cleanup.py\<close>

text \<open>
  The model covers ASCII text: a Python \<^verbatim>\<open>str\<close> is a \<^typ>\<open>string\<close>, one
  \<^typ>\<open>char\<close> per code point. On ASCII, \<^verbatim>\<open>\s\<close> and \<^verbatim>\<open>str.strip()\<close> treat the
  characters 0x09-0x0D, 0x1C-0x1F and the space as whitespace, \<^verbatim>\<open>\w\<close> is a
  letter, a digit or the underscore, and \<^verbatim>\<open>str.lower()\<close> maps A-Z to a-z.
\<close>

definition py_isspace :: "char \<Rightarrow> bool" where
  "py_isspace c = (c \<in> set [CHR 0x09, CHR 0x0A, CHR 0x0B, CHR 0x0C, CHR 0x0D,
                              CHR 0x1C, CHR 0x1D, CHR 0x1E, CHR 0x1F, CHR 0x20])"

definition is_word :: "char \<Rightarrow> bool" where
  "is_word c = (c \<in> set (''abcdefghijklmnopqrstuvwxyz'' @ ''ABCDEFGHIJKLMNOPQRSTUVWXYZ''
                            @ ''0123456789_''))"

definition lower_char :: "char \<Rightarrow> char" where
  "lower_char c =
     (case map_of (zip ''ABCDEFGHIJKLMNOPQRSTUVWXYZ'' ''abcdefghijklmnopqrstuvwxyz'') c of
        Some l \<Rightarrow> l
      | None \<Rightarrow> c)"

definition lower :: "string \<Rightarrow> string" where
  "lower s = map lower_char s"

text \<open>\<^verbatim>\<open>s.strip()\<close> and \<^verbatim>\<open>s.strip(chars)\<close>.\<close>

definition strip_with :: "(char \<Rightarrow> bool) \<Rightarrow> string \<Rightarrow> string" where
  "strip_with p s = rev (dropWhile p (rev (dropWhile p s)))"

definition strip :: "string \<Rightarrow> string" where
  "strip s = strip_with py_isspace s"

text \<open>
  The fixed part of each pattern is a sequence of atoms: \<^verbatim>\<open>\s\<close>, a literal character,
  or an optional literal (\<^verbatim>\<open>\.?\<close>, greedy). \<open>match_atoms ic as s\<close> matches the atoms
  at the start of \<open>s\<close> and returns what follows the match; \<open>ic\<close> is
  \<^verbatim>\<open>re.IGNORECASE\<close>.
\<close>

datatype atom = Ws | Lit char | Opt char

definition same_char :: "bool \<Rightarrow> char \<Rightarrow> char \<Rightarrow> bool" where
  "same_char ic c x = (if ic then lower_char c = lower_char x else c = x)"

fun match_atoms :: "bool \<Rightarrow> atom list \<Rightarrow> string \<Rightarrow> string option" where
  "match_atoms ic [] s = Some s"
| "match_atoms ic (Ws # as) [] = None"
| "match_atoms ic (Ws # as) (c # r) = (if py_isspace c then match_atoms ic as r else None)"
| "match_atoms ic (Lit x # as) [] = None"
| "match_atoms ic (Lit x # as) (c # r) =
     (if same_char ic c x then match_atoms ic as r else None)"
| "match_atoms ic (Opt x # as) [] = match_atoms ic as []"
| "match_atoms ic (Opt x # as) (c # r) =
     (if same_char ic c x
      then (case match_atoms ic as r of
              Some t \<Rightarrow> Some t
            | None \<Rightarrow> match_atoms ic as (c # r))
      else match_atoms ic as (c # r))"

definition lits :: "string \<Rightarrow> atom list" where
  "lits s = map Lit s"

text \<open>
  \<^verbatim>\<open>.*$\<close> at the start of \<open>r\<close>: the dot matches anything but a newline, and
  \<^verbatim>\<open>$\<close> matches at the end of the string or just before a newline that ends it.
\<close>

fun dot_star_eol :: "string \<Rightarrow> bool" where
  "dot_star_eol [] = True"
| "dot_star_eol [c] = True"
| "dot_star_eol (c # d # r) = (if c = CHR 0x0A then False else dot_star_eol (d # r))"

text \<open>
  A featuring pattern is a fixed part, an optional negative lookahead and \<^verbatim>\<open>.*$\<close>.
  \<open>clause_rest\<close> gives the text after the fixed part when the whole pattern matches at
  the start of \<open>s\<close>.
\<close>

definition clause_rest :: "atom list \<Rightarrow> atom list option \<Rightarrow> string \<Rightarrow> string option" where
  "clause_rest p la s =
     (case match_atoms True p s of
        None \<Rightarrow> None
      | Some r \<Rightarrow>
          (case la of
             None \<Rightarrow> (if dot_star_eol r then Some r else None)
           | Some f \<Rightarrow>
               (case match_atoms True f r of
                  Some _ \<Rightarrow> None
                | None \<Rightarrow> (if dot_star_eol r then Some r else None))))"

text \<open>
  \<^verbatim>\<open>re.sub(pattern, '', name, flags=re.IGNORECASE)\<close> for a featuring pattern: the
  leftmost match is removed. It runs to the end of the string, or to the newline that ends
  the string, which stays; nothing after it can match again.
\<close>

fun re_sub_clause :: "atom list \<Rightarrow> atom list option \<Rightarrow> string \<Rightarrow> string" where
  "re_sub_clause p la [] = []"
| "re_sub_clause p la (c # cs) =
     (case clause_rest p la (c # cs) of
        Some r \<Rightarrow> (if r = [] then [] else if last r = CHR 0x0A then [CHR 0x0A] else [])
      | None \<Rightarrow> c # re_sub_clause p la cs)"

text \<open>\<^verbatim>\<open>re.sub(r'\s+', ' ', name)\<close>: every run of whitespace becomes one space.\<close>

function collapse_ws :: "string \<Rightarrow> string" where
  "collapse_ws [] = []"
| "collapse_ws (c # cs) =
     (if py_isspace c then CHR '' '' # collapse_ws (dropWhile py_isspace cs)
      else c # collapse_ws cs)"
  by pat_completeness auto
termination
  by (relation "measure length") (auto simp: length_dropWhile_le less_Suc_eq_le)

text \<open>
  \<^verbatim>\<open>re.sub(r'\sand\sthe\s', ' & the ', name)\<close> (no flag: case-sensitive): the leftmost
  matches, which do not overlap, are replaced from left to right.
\<close>

definition and_the :: "atom list" where
  "and_the = Ws # lits ''and'' @ Ws # lits ''the'' @ [Ws]"

fun re_sub_and_the :: "string \<Rightarrow> string" where
  "re_sub_and_the [] = []"
| "re_sub_and_the (c # cs) =
     (if match_atoms False and_the (c # cs) = None then c # re_sub_and_the cs
      else '' & the '' @ re_sub_and_the (drop 8 cs))"

section \<open>Name normalisation\<close>

definition normalize_string :: "string \<Rightarrow> string" where
  "normalize_string s = filter (\<lambda>c. is_word c \<or> py_isspace c) (lower s)"

definition featuring_patterns :: "(atom list \<times> atom list option) list" where
  "featuring_patterns =
     [([Lit CHR '','']      , None),
      (Ws # lits ''feat.''  , None),
      (Ws # lits ''ft.''    , None),
      (Ws # lits ''with'' @ [Ws], None),
      ([Ws, Lit CHR ''x'', Ws]  , None),
      (Ws # lits ''vs'' @ [Opt CHR ''.'', Ws], None),
      ([Ws, Lit CHR ''&'', Ws]  , Some (lits ''the'' @ [Ws]))]"

definition strip_featuring :: "string \<Rightarrow> string" where
  "strip_featuring name = foldl (\<lambda>n (p, la). re_sub_clause p la n) name featuring_patterns"

definition normalize_artist_name :: "string \<Rightarrow> string" where
  "normalize_artist_name artist =
     (let name = lower artist;
          name = strip_featuring name;
          name = filter (\<lambda>c. is_word c \<or> py_isspace c \<or> c = CHR ''&'') name;
          name = collapse_ws name;
          name = re_sub_and_the name
      in strip name)"

section \<open>Fuzzy matching\<close>

text \<open>
  \<^verbatim>\<open>fuzz.ratio\<close> belongs to the fuzzywuzzy library, not to this program: it is the
  parameter \<open>ratio\<close>, a score from 0 to 100 for two strings. \<open>find_similar_loop\<close> is the
  \<^verbatim>\<open>for\<close> loop of \<^verbatim>\<open>find_similar_name\<close> with its two variables.
\<close>

type_synonym scorer = "string \<Rightarrow> string \<Rightarrow> nat"

fun find_similar_loop ::
  "scorer \<Rightarrow> nat \<Rightarrow> string \<Rightarrow> string list \<Rightarrow> nat \<Rightarrow> string option \<Rightarrow> string option" where
  "find_similar_loop ratio threshold normalized_name [] highest_ratio best_match = best_match"
| "find_similar_loop ratio threshold normalized_name (existing # rest) highest_ratio best_match =
     (let r = ratio normalized_name (normalize_string existing)
      in if r > highest_ratio \<and> r \<ge> threshold
         then find_similar_loop ratio threshold normalized_name rest r (Some existing)
         else find_similar_loop ratio threshold normalized_name rest highest_ratio best_match)"

definition find_similar_name :: "scorer \<Rightarrow> string \<Rightarrow> string list \<Rightarrow> nat \<Rightarrow> string option" where
  "find_similar_name ratio name existing_names threshold =
     find_similar_loop ratio threshold (normalize_string name) existing_names 0 None"

text \<open>
  A scorer to run the model with: twice the length of a longest common subsequence over
  the sum of the lengths, as a percentage rounded to the nearest integer; 100 for equal
  strings and 0 when one string is empty, as \<^verbatim>\<open>fuzz.ratio\<close> answers there.
\<close>

fun lcs_row :: "char \<Rightarrow> string \<Rightarrow> nat list \<Rightarrow> nat \<Rightarrow> nat list" where
  "lcs_row x (y # ys) (d # u # prev) left =
     (let v = (if x = y then d + 1 else max u left) in v # lcs_row x ys (u # prev) v)"
| "lcs_row x ys prev left = []"

definition lcs_length :: "string \<Rightarrow> string \<Rightarrow> nat" where
  "lcs_length xs ys =
     last (foldl (\<lambda>row x. 0 # lcs_row x ys row 0) (replicate (length ys + 1) 0) xs)"

definition lcs_ratio :: scorer where
  "lcs_ratio a b =
     (if a = b then 100
      else if a = [] then 0
      else if b = [] then 0
      else (400 * lcs_length a b + (length a + length b)) div (2 * (length a + length b)))"

section \<open>The registry of canonical names\<close>

text \<open>
  \<^verbatim>\<open>DirectoryManager\<close>: two dictionaries keyed by the normalised artist, and
  \<^verbatim>\<open>album_mappings\<close>, a \<^verbatim>\<open>defaultdict(dict)\<close>: a missing artist reads as the empty
  dictionary. The inner dictionary keeps its insertion order, which \<^verbatim>\<open>.values()\<close>
  follows, so it is an association list.
\<close>

record directory_manager =
  artist_mappings :: "string \<rightharpoonup> string"
  album_mappings :: "string \<Rightarrow> (string \<times> string) list"
  canonical_cases :: "string \<rightharpoonup> string"

definition DirectoryManager :: directory_manager where
  "DirectoryManager =
     \<lparr>artist_mappings = Map.empty, album_mappings = (\<lambda>_. []), canonical_cases = Map.empty\<rparr>"

text \<open>\<^verbatim>\<open>d[k] = v\<close> on an insertion-ordered dictionary.\<close>

fun dict_set :: "'k \<Rightarrow> 'v \<Rightarrow> ('k \<times> 'v) list \<Rightarrow> ('k \<times> 'v) list" where
  "dict_set k v [] = [(k, v)]"
| "dict_set k v ((k', v') # rest) =
     (if k = k' then (k', v) # rest else (k', v') # dict_set k v rest)"

definition store_artist :: "string \<Rightarrow> string \<Rightarrow> directory_manager \<Rightarrow> directory_manager" where
  "store_artist normalized artist dm =
     dm\<lparr>canonical_cases := (canonical_cases dm)(normalized \<mapsto> artist),
        artist_mappings := (artist_mappings dm)(normalized \<mapsto> artist)\<rparr>"

definition get_canonical_artist :: "string \<Rightarrow> directory_manager \<Rightarrow> string \<times> directory_manager" where
  "get_canonical_artist artist dm =
     (let normalized = normalize_artist_name artist
      in case artist_mappings dm normalized of
           Some canonical \<Rightarrow> (canonical, dm)
         | None \<Rightarrow>
             (case canonical_cases dm normalized of
                None \<Rightarrow> (artist, store_artist normalized artist dm)
              | Some known \<Rightarrow>
                  if length artist > length known
                  then (artist, store_artist normalized artist dm)
                  else (known, dm)))"

definition store_album :: "string \<Rightarrow> string \<Rightarrow> string \<Rightarrow> directory_manager \<Rightarrow> directory_manager" where
  "store_album canonical_artist normalized_album name dm =
     dm\<lparr>album_mappings := (album_mappings dm)
          (canonical_artist := dict_set normalized_album name (album_mappings dm canonical_artist))\<rparr>"

text \<open>\<^verbatim>\<open>if similar_album:\<close> is false for \<^verbatim>\<open>None\<close> and for the empty string.\<close>

definition get_canonical_album ::
  "scorer \<Rightarrow> string \<Rightarrow> string \<Rightarrow> directory_manager \<Rightarrow> string \<times> directory_manager" where
  "get_canonical_album ratio artist album dm =
     (let (canonical_artist, dm1) = get_canonical_artist artist dm;
          normalized_album = normalize_string album;
          albums = album_mappings dm1 canonical_artist
      in case map_of albums normalized_album of
           Some canonical \<Rightarrow> (canonical, dm1)
         | None \<Rightarrow>
             (case find_similar_name ratio album (map snd albums) 85 of
                None \<Rightarrow> (album, store_album canonical_artist normalized_album album dm1)
              | Some similar_album \<Rightarrow>
                  if similar_album = []
                  then (album, store_album canonical_artist normalized_album album dm1)
                  else (similar_album,
                        store_album canonical_artist normalized_album similar_album dm1)))"

section \<open>Paths and file names\<close>

text \<open>\<^verbatim>\<open>s.endswith(t)\<close>, \<^verbatim>\<open>s.rfind(c)\<close> (-1 when absent), \<^verbatim>\<open>s.zfill(width)\<close>.\<close>

definition endswith :: "string \<Rightarrow> string \<Rightarrow> bool" where
  "endswith s t = (length t \<le> length s \<and> drop (length s - length t) s = t)"

definition rfind :: "char \<Rightarrow> string \<Rightarrow> int" where
  "rfind c s =
     (if c \<in> set s then int (length s) - 1 - int (length (takeWhile (\<lambda>x. x \<noteq> c) (rev s)))
      else - 1)"

definition zfill :: "nat \<Rightarrow> string \<Rightarrow> string" where
  "zfill width s =
     (if width \<le> length s then s
      else case s of
             [] \<Rightarrow> replicate width CHR ''0''
           | c # r \<Rightarrow>
               if c = CHR ''+'' \<or> c = CHR ''-''
               then c # replicate (width - length s) CHR ''0'' @ r
               else replicate (width - length s) CHR ''0'' @ s)"

text \<open>\<^verbatim>\<open>os.path.join\<close> and \<^verbatim>\<open>os.path.splitext\<close> of posixpath.\<close>

definition join2 :: "string \<Rightarrow> string \<Rightarrow> string" where
  "join2 path b =
     (if take 1 b = ''/'' then b
      else if path = [] then path @ b
      else if last path = CHR ''/'' then path @ b
      else path @ ''/'' @ b)"

definition path_join :: "string \<Rightarrow> string list \<Rightarrow> string" where
  "path_join a ps = foldl join2 a ps"

definition splitext :: "string \<Rightarrow> string \<times> string" where
  "splitext p =
     (let sepIndex = rfind CHR ''/'' p;
          dotIndex = rfind CHR ''.'' p
      in if dotIndex > sepIndex \<and>
            list_ex (\<lambda>ch. ch \<noteq> CHR ''.'')
              (take (nat (dotIndex - (sepIndex + 1))) (drop (nat (sepIndex + 1)) p))
         then (take (nat dotIndex) p, drop (nat dotIndex) p)
         else (p, []))"

text \<open>
  \<^verbatim>\<open>Path(f).suffix\<close> for a file name \<open>f\<close> as \<^verbatim>\<open>os.walk\<close> lists it (one path
  component, no separator).
\<close>

definition path_suffix :: "string \<Rightarrow> string" where
  "path_suffix name =
     (let i = rfind CHR ''.'' name
      in if 0 < i \<and> i < int (length name) - 1 then drop (nat i) name else [])"

definition MUSIC_EXTENSIONS :: "string list" where
  "MUSIC_EXTENSIONS = [''.mp3'', ''.m4a'', ''.flac'', ''.wav'']"

definition invalid_chars :: "char list" where
  "invalid_chars = [CHR ''<'', CHR ''>'', CHR '':'', CHR 0x22, CHR ''/'', CHR 0x5C,
                    CHR ''|'', CHR ''?'', CHR ''*'']"

definition sanitize_filename :: "string \<Rightarrow> string" where
  "sanitize_filename filename =
     (let sanitized = filter (\<lambda>c. c \<notin> set invalid_chars) filename
      in strip_with (\<lambda>c. c \<in> set ''. '') sanitized)"

section \<open>Metadata\<close>

text \<open>
  What the tag library finds in a file: it raises (\<open>Unreadable\<close>), it finds no tags
  (\<open>NoTags\<close>: \<^verbatim>\<open>EasyID3\<close> raises, \<^verbatim>\<open>File\<close> returns \<^verbatim>\<open>None\<close> or an object
  without tags), or it gives a dictionary from tag names to lists of strings.
\<close>

datatype tag_file = Unreadable | NoTags | Tags "(string \<times> string list) list"

record metadata =
  artist :: string
  album :: string
  title :: string
  tracknumber :: string

text \<open>
  \<^verbatim>\<open>tags.get(key, [''])[0]\<close>: \<open>None\<close> is the \<^verbatim>\<open>IndexError\<close> of an empty list,
  which the \<^verbatim>\<open>except\<close> of \<^verbatim>\<open>get_audio_metadata\<close> turns into \<^verbatim>\<open>None\<close>.
\<close>

definition tag_first :: "(string \<times> string list) list \<Rightarrow> string \<Rightarrow> string option" where
  "tag_first tags key =
     (case map_of tags key of
        None \<Rightarrow> Some []
      | Some [] \<Rightarrow> None
      | Some (v # _) \<Rightarrow> Some v)"

definition build_metadata :: "(string \<times> string list) list \<Rightarrow> metadata option" where
  "build_metadata tags =
     (case tag_first tags ''artist'' of None \<Rightarrow> None | Some ar \<Rightarrow>
      case tag_first tags ''album'' of None \<Rightarrow> None | Some al \<Rightarrow>
      case tag_first tags ''title'' of None \<Rightarrow> None | Some ti \<Rightarrow>
      case tag_first tags ''tracknumber'' of None \<Rightarrow> None | Some tr \<Rightarrow>
        Some \<lparr>artist = ar, album = al, title = ti,
              tracknumber = zfill 2 (takeWhile (\<lambda>c. c \<noteq> CHR ''/'') tr)\<rparr>)"

definition get_audio_metadata :: "string \<Rightarrow> tag_file \<Rightarrow> metadata option" where
  "get_audio_metadata filepath tf =
     (if endswith (lower filepath) ''.mp3''
      then (case tf of
              Tags audio \<Rightarrow>
                if map_of audio ''title'' = None then None
                else if map_of audio ''artist'' = None then None
                else build_metadata audio
            | _ \<Rightarrow> None)
      else (case tf of
              Tags tags \<Rightarrow>
                if tags = [] then None
                else if map_of tags ''title'' = None then None
                else if map_of tags ''artist'' = None then None
                else build_metadata tags
            | _ \<Rightarrow> None))"

definition generate_new_filename :: "metadata \<Rightarrow> string \<Rightarrow> string" where
  "generate_new_filename md original_path =
     (let ext = lower (snd (splitext original_path));
          track_num = tracknumber md;
          title = sanitize_filename (title md)
      in if track_num \<noteq> [] then track_num @ '' - '' @ title @ ext
         else title @ ext)"

section \<open>Files and the analysis pass\<close>

text \<open>
  A file as the pass meets it: where \<^verbatim>\<open>os.walk\<close> found it, what the tag library reads
  from it, and what hashing it and asking its size give: \<open>Inl\<close> the message of the
  exception raised, \<open>Inr\<close> the SHA-256 hex digest or the size.
\<close>

record audio_file =
  dirpath :: string
  filename :: string
  tag_data :: tag_file
  hash_result :: "string + string"
  size_result :: "string + nat"

record music_file =
  mf_path :: string
  mf_hash :: string
  mf_metadata :: metadata
  mf_size :: nat
  mf_new_filename :: string

text \<open>
  \<^verbatim>\<open>MusicFile(path)\<close>: the hash, the metadata (read again), the size, the new file
  name; \<open>Inl\<close> is the exception that leaves the constructor.
\<close>

definition none_subscript :: string where
  "none_subscript = [CHR 0x27] @ ''NoneType'' @ [CHR 0x27] @ '' object is not subscriptable''"

definition MusicFile :: "string \<Rightarrow> audio_file \<Rightarrow> string + music_file" where
  "MusicFile path f =
     (case hash_result f of
        Inl e \<Rightarrow> Inl e
      | Inr h \<Rightarrow>
          (case size_result f of
             Inl e \<Rightarrow> Inl e
           | Inr n \<Rightarrow>
               (case get_audio_metadata path (tag_data f) of
                  None \<Rightarrow> Inl none_subscript
                | Some md \<Rightarrow>
                    Inr \<lparr>mf_path = path, mf_hash = h, mf_metadata = md, mf_size = n,
                         mf_new_filename = generate_new_filename md path\<rparr>)))"

record move_entry =
  original_path :: string
  current_filename :: string
  new_filename :: string
  move_metadata :: metadata

record skip_entry =
  skip_path :: string
  reason :: string

text \<open>\<^verbatim>\<open>d[k].append(v)\<close> on a \<^verbatim>\<open>defaultdict(list)\<close>, and reading \<^verbatim>\<open>d[k]\<close>.\<close>

fun dd_append :: "'k \<Rightarrow> 'v \<Rightarrow> ('k \<times> 'v list) list \<Rightarrow> ('k \<times> 'v list) list" where
  "dd_append k v [] = [(k, [v])]"
| "dd_append k v ((k', vs) # rest) =
     (if k = k' then (k', vs @ [v]) # rest else (k', vs) # dd_append k v rest)"

definition dd_get :: "('k \<times> 'v list) list \<Rightarrow> 'k \<Rightarrow> 'v list" where
  "dd_get d k = (case map_of d k of None \<Rightarrow> [] | Some vs \<Rightarrow> vs)"

record analysis =
  proposed_moves :: "(string \<times> move_entry list) list"
  unique_files :: "string \<rightharpoonup> music_file"
  duplicates :: "(string \<times> string list) list"
  skipped_files :: "skip_entry list"
  directory_manager :: directory_manager

definition start :: analysis where
  "start = \<lparr>proposed_moves = [], unique_files = Map.empty, duplicates = [],
            skipped_files = [], directory_manager = DirectoryManager\<rparr>"

definition skip :: "string \<Rightarrow> string \<Rightarrow> analysis \<Rightarrow> analysis" where
  "skip full_path why st =
     st\<lparr>skipped_files := skipped_files st @ [\<lparr>skip_path = full_path, reason = why\<rparr>]\<rparr>"

text \<open>
  The body of the inner \<^verbatim>\<open>for filename in music_files\<close> loop, on one file. The registry
  is updated before \<^verbatim>\<open>MusicFile\<close> runs, so it keeps its new entries when the constructor
  raises.
\<close>

definition process_file :: "scorer \<Rightarrow> string \<Rightarrow> analysis \<Rightarrow> audio_file \<Rightarrow> analysis" where
  "process_file ratio root_dir st f =
     (let full_path = path_join (dirpath f) [filename f]
      in case get_audio_metadata full_path (tag_data f) of
           None \<Rightarrow> skip full_path ''Missing required metadata (title/artist)'' st
         | Some md \<Rightarrow>
             (let (canonical_artist, dm1) =
                    get_canonical_artist (artist md) (directory_manager st);
                  (canonical_album, dm2) =
                    get_canonical_album ratio canonical_artist (album md) dm1;
                  md' = md\<lparr>artist := canonical_artist, album := canonical_album\<rparr>;
                  st1 = st\<lparr>directory_manager := dm2\<rparr>
              in case MusicFile full_path f of
                   Inl e \<Rightarrow> skip full_path (''Error processing file: '' @ e) st1
                 | Inr music_file \<Rightarrow>
                     (case unique_files st1 (mf_hash music_file) of
                        Some _ \<Rightarrow>
                          st1\<lparr>duplicates :=
                                dd_append (mf_hash music_file) full_path (duplicates st1)\<rparr>
                      | None \<Rightarrow>
                          (let new_path = path_join root_dir
                                 [sanitize_filename canonical_artist,
                                  sanitize_filename canonical_album]
                           in st1\<lparr>unique_files := (unique_files st1)
                                     (mf_hash music_file \<mapsto> music_file\<lparr>mf_metadata := md'\<rparr>),
                                   proposed_moves :=
                                     dd_append new_path
                                       \<lparr>original_path = full_path,
                                        current_filename = filename f,
                                        new_filename = mf_new_filename music_file,
                                        move_metadata = md'\<rparr>
                                       (proposed_moves st1)\<rparr>))))"

definition is_music :: "audio_file \<Rightarrow> bool" where
  "is_music f = (lower (path_suffix (filename f)) \<in> set MUSIC_EXTENSIONS)"

text \<open>
  The pass over the files in the order \<^verbatim>\<open>os.walk\<close> lists them, directory after
  directory; \<open>analyze_music_directory\<close> returns the three results of the source.
\<close>

definition scan :: "scorer \<Rightarrow> string \<Rightarrow> analysis \<Rightarrow> audio_file list \<Rightarrow> analysis" where
  "scan ratio root_dir st files = foldl (process_file ratio root_dir) st (filter is_music files)"

definition analyze_music_directory ::
  "scorer \<Rightarrow> string \<Rightarrow> audio_file list \<Rightarrow>
     (string \<times> move_entry list) list \<times> (string \<times> string list) list \<times> skip_entry list" where
  "analyze_music_directory ratio root_dir files =
     (let st = scan ratio root_dir start files
      in (proposed_moves st, duplicates st, skipped_files st))"

section \<open>The life of one registry\<close>

text \<open>
  \<open>evolves ratio dm dm'\<close>: the registry \<open>dm\<close> becomes \<open>dm'\<close> by calls of its two
  methods. A registry is \<open>reachable\<close> when it comes from \<^verbatim>\<open>DirectoryManager()\<close>
  that way.
\<close>

inductive evolves :: "scorer \<Rightarrow> directory_manager \<Rightarrow> directory_manager \<Rightarrow> bool"
  for ratio :: scorer and dm :: directory_manager where
  evolves_same: "evolves ratio dm dm"
| evolves_artist:
    "evolves ratio dm dm' \<Longrightarrow> evolves ratio dm (snd (get_canonical_artist a dm'))"
| evolves_album:
    "evolves ratio dm dm' \<Longrightarrow> evolves ratio dm (snd (get_canonical_album ratio a b dm'))"

definition reachable :: "scorer \<Rightarrow> directory_manager \<Rightarrow> bool" where
  "reachable ratio dm = evolves ratio DirectoryManager dm"

section \<open>Reading the result of a pass\<close>

text \<open>
  Names for what the statements below speak of. \<open>full_path_of\<close> is
  \<^verbatim>\<open>os.path.join(dirpath, filename)\<close>; \<open>observed_digest\<close> is the digest under which
  the pass sees a file, when \<^verbatim>\<open>MusicFile\<close> succeeds on it; \<open>skip_reason\<close> is the reason
  the pass records when it skips the file; \<open>plan_paths\<close> lists the original paths of a
  move plan, \<open>duplicate_paths\<close> the paths of all duplicate groups; \<open>representative\<close> is the
  path of the file kept for a digest; \<open>resolved\<close> is the metadata with its canonical
  names, and the registry after resolving them.
\<close>

definition full_path_of :: "audio_file \<Rightarrow> string" where
  "full_path_of f = path_join (dirpath f) [filename f]"

definition observed_digest :: "audio_file \<Rightarrow> string option" where
  "observed_digest f =
     (case MusicFile (full_path_of f) f of Inl _ \<Rightarrow> None | Inr mf \<Rightarrow> Some (mf_hash mf))"

definition skip_reason :: "audio_file \<Rightarrow> string option" where
  "skip_reason f =
     (case get_audio_metadata (full_path_of f) (tag_data f) of
        None \<Rightarrow> Some ''Missing required metadata (title/artist)''
      | Some _ \<Rightarrow>
          (case MusicFile (full_path_of f) f of
             Inl e \<Rightarrow> Some (''Error processing file: '' @ e)
           | Inr _ \<Rightarrow> None))"

definition skip_record :: "audio_file \<Rightarrow> skip_entry list" where
  "skip_record f =
     (case skip_reason f of
        None \<Rightarrow> []
      | Some why \<Rightarrow> [\<lparr>skip_path = full_path_of f, reason = why\<rparr>])"

definition plan_paths :: "(string \<times> move_entry list) list \<Rightarrow> string list" where
  "plan_paths moves = map original_path (concat (map snd moves))"

definition duplicate_paths :: "(string \<times> string list) list \<Rightarrow> string list" where
  "duplicate_paths dups = concat (map snd dups)"

definition representative :: "analysis \<Rightarrow> string \<Rightarrow> string option" where
  "representative st h = map_option mf_path (unique_files st h)"

definition resolved ::
  "scorer \<Rightarrow> metadata \<Rightarrow> directory_manager \<Rightarrow> metadata \<times> directory_manager" where
  "resolved ratio md dm =
     (let r1 = get_canonical_artist (artist md) dm;
          r2 = get_canonical_album ratio (fst r1) (album md) (snd r1)
      in (md\<lparr>artist := fst r1, album := fst r2\<rparr>, snd r2))"

section \<open>Example files\<close>

text \<open>
  Files to run the pass on: two copies of one track, a file without an artist tag, a file
  whose artist tag is the empty string, a file whose tags are read but whose data cannot
  be read to the end when it is hashed, and a file that cannot be opened at all: the tag
  library raises on it, and hashing it would raise too.
\<close>

definition track_a :: audio_file where
  "track_a =
     \<lparr>dirpath = ''/music/in'', filename = ''a.mp3'',
      tag_data = Tags [(''title'', [''Bicycle Race'']), (''artist'', [''Queen'']),
                       (''album'', [''Jazz'']), (''tracknumber'', [''4/13''])],
      hash_result = Inr ''d1'', size_result = Inr 100\<rparr>"

definition track_b :: audio_file where
  "track_b =
     \<lparr>dirpath = ''/music/in'', filename = ''b.mp3'',
      tag_data = Tags [(''title'', [''Bicycle Race'']), (''artist'', [''Queen'']),
                       (''album'', [''Jazz'']), (''tracknumber'', [''4/13''])],
      hash_result = Inr ''d1'', size_result = Inr 100\<rparr>"

definition track_no_artist :: audio_file where
  "track_no_artist =
     \<lparr>dirpath = ''/music/in'', filename = ''c.flac'',
      tag_data = Tags [(''title'', [''Untitled''])],
      hash_result = Inr ''d3'', size_result = Inr 300\<rparr>"

definition track_empty_artist :: audio_file where
  "track_empty_artist =
     \<lparr>dirpath = ''/music/in'', filename = ''d.flac'',
      tag_data = Tags [(''title'', [''Untitled'']), (''artist'', [''''])],
      hash_result = Inr ''d4'', size_result = Inr 400\<rparr>"

definition track_bad_sector :: audio_file where
  "track_bad_sector =
     \<lparr>dirpath = ''/music/in'', filename = ''e.wav'',
      tag_data = Tags [(''title'', [''Noise'']), (''artist'', [''Nobody''])],
      hash_result = Inl ''[Errno 5] Input/output error'', size_result = Inr 500\<rparr>"

definition track_unreadable :: audio_file where
  "track_unreadable =
     \<lparr>dirpath = ''/music/in'', filename = ''f.mp3'',
      tag_data = Unreadable,
      hash_result = Inl ''[Errno 13] Permission denied'', size_result = Inr 600\<rparr>"

text \<open>
  \<open>similarity\<close> is the score that \<^verbatim>\<open>find_similar_name\<close> compares: the scorer on the
  two normalised names. \<open>empty_name_has_key\<close>: where the empty string is a registered
  album name, it is a key too (it is the name of the album whose tag is empty).
\<close>

definition similarity :: "scorer \<Rightarrow> string \<Rightarrow> string \<Rightarrow> nat" where
  "similarity ratio a b = ratio (normalize_string a) (normalize_string b)"

definition empty_name_has_key :: "directory_manager \<Rightarrow> bool" where
  "empty_name_has_key dm =
     (\<forall>a. [] \<in> snd ` set (album_mappings dm a) \<longrightarrow> [] \<in> fst ` set (album_mappings dm a))"

section \<open>Names that normalisation leaves alone\<close>



section \<open>Band names\<close>




section \<open>Artist resolution\<close>

lemma artist_kept:
  "artist_mappings dm k = Some c \<Longrightarrow>
   artist_mappings (snd (get_canonical_artist a dm)) k = Some c"
  by (auto simp: get_canonical_artist_def store_artist_def Let_def split: option.splits)

lemma artist_hit:
  "artist_mappings dm (normalize_artist_name a) = Some c \<Longrightarrow>
   get_canonical_artist a dm = (c, dm)"
  by (simp add: get_canonical_artist_def)

lemma album_artist_mappings:
  "artist_mappings (snd (get_canonical_album ratio a b dm)) =
   artist_mappings (snd (get_canonical_artist a dm))"
  by (auto simp: get_canonical_album_def store_album_def Let_def
           split: prod.splits option.splits)

lemma album_canonical_cases:
  "canonical_cases (snd (get_canonical_album ratio a b dm)) =
   canonical_cases (snd (get_canonical_artist a dm))"
  by (auto simp: get_canonical_album_def store_album_def Let_def
           split: prod.splits option.splits)

text \<open>The two artist dictionaries are always written together, so they stay equal.\<close>

lemma artist_same_dicts:
  "artist_mappings dm = canonical_cases dm \<Longrightarrow>
   artist_mappings (snd (get_canonical_artist a dm)) =
   canonical_cases (snd (get_canonical_artist a dm))"
  by (auto simp: get_canonical_artist_def store_artist_def Let_def split: option.splits)

lemma evolves_same_dicts:
  "evolves ratio dm dm' \<Longrightarrow> artist_mappings dm = canonical_cases dm \<Longrightarrow>
   artist_mappings dm' = canonical_cases dm'"
  by (induction rule: evolves.induct)
     (simp_all add: artist_same_dicts album_artist_mappings album_canonical_cases)

lemma reachable_same_dicts:
  "reachable ratio dm \<Longrightarrow> artist_mappings dm = canonical_cases dm"
  unfolding reachable_def by (erule evolves_same_dicts) (simp add: DirectoryManager_def)

lemma evolves_kept:
  "evolves ratio dm dm' \<Longrightarrow> artist_mappings dm k = Some c \<Longrightarrow>
   artist_mappings dm' k = Some c"
  by (induction rule: evolves.induct) (simp_all add: artist_kept album_artist_mappings)

lemma evolves_trans:
  "evolves ratio dm1 dm2 \<Longrightarrow> evolves ratio dm dm1 \<Longrightarrow> evolves ratio dm dm2"
  by (induction rule: evolves.induct) (auto intro: evolves.intros)

lemma reachable_start: "reachable ratio DirectoryManager"
  by (simp add: reachable_def evolves_same)

lemma artist_fresh:
  assumes "artist_mappings dm = canonical_cases dm"
    and "artist_mappings dm (normalize_artist_name a) = None"
  shows "get_canonical_artist a dm = (a, store_artist (normalize_artist_name a) a dm)"
  using assms by (simp add: get_canonical_artist_def Let_def)

lemma artist_result_stored:
  assumes "artist_mappings dm = canonical_cases dm"
  shows "artist_mappings (snd (get_canonical_artist a dm)) (normalize_artist_name a)
           = Some (fst (get_canonical_artist a dm))"
  using assms
  by (auto simp: get_canonical_artist_def store_artist_def Let_def split: option.splits)

lemma norm_ACDC: "normalize_artist_name ''ACDC'' = ''acdc''"
  by code_simp

lemma norm_AC_DC: "normalize_artist_name ''AC/DC'' = ''acdc''"
  by code_simp

lemma norm_Beatles: "normalize_artist_name ''Beatles'' = ''beatles''"
  by code_simp

lemma norm_THE_BEATLES: "normalize_artist_name ''THE BEATLES'' = ''the beatles''"
  by code_simp

lemma norm_Queen: "normalize_artist_name ''Queen'' = ''queen''"
  by code_simp

lemma first_ACDC:
  "get_canonical_artist ''ACDC'' DirectoryManager =
     (''ACDC'', store_artist ''acdc'' ''ACDC'' DirectoryManager)"
  by (simp add: get_canonical_artist_def norm_ACDC DirectoryManager_def)

text \<open>
  C1. The claim: when a longer raw spelling arrives for a normalised key that a shorter
  spelling produced before, the longer spelling replaces the stored canonical form. The
  code does not do it: both dictionaries are written together, so the test
  \<^verbatim>\<open>normalized in self.artist_mappings\<close> returns before the branch commented
  "Keep the longer version" can run. "ACDC" and then "AC/DC" share the key "acdc", the
  second is longer, and the registry still answers and stores "ACDC". The spec's own
  example does not share a key: "Beatles" gives "beatles", "THE BEATLES" gives
  "the beatles", and "Beatles" still resolves to "Beatles" afterwards.
\<close>

theorem longer_spelling_not_kept:
  "normalize_artist_name ''ACDC'' = normalize_artist_name ''AC/DC''
   \<and> length ''ACDC'' < length ''AC/DC''
   \<and> fst (get_canonical_artist ''AC/DC''
            (snd (get_canonical_artist ''ACDC'' DirectoryManager))) = ''ACDC''
   \<and> artist_mappings
        (snd (get_canonical_artist ''AC/DC''
               (snd (get_canonical_artist ''ACDC'' DirectoryManager))))
        (normalize_artist_name ''AC/DC'') = Some ''ACDC''
   \<and> normalize_artist_name ''Beatles'' \<noteq> normalize_artist_name ''THE BEATLES''
   \<and> fst (get_canonical_artist ''Beatles''
            (snd (get_canonical_artist ''THE BEATLES''
                   (snd (get_canonical_artist ''Beatles'' DirectoryManager))))) = ''Beatles''"
  by (simp add: norm_ACDC norm_AC_DC norm_Beatles norm_THE_BEATLES get_canonical_artist_def
                DirectoryManager_def store_artist_def Let_def)

text \<open>
  C7. In a registry that comes from \<^verbatim>\<open>DirectoryManager()\<close>, once a raw artist has been
  resolved, every raw artist with the same normalised key resolves to the same canonical
  form, whatever calls come in between; and when the key has a mapping, the call returns
  it and leaves the registry as it was. \<open>get_canonical_artist\<close> takes no scorer: no
  fuzzy matching takes part.
\<close>

theorem artist_resolution_by_key:
  assumes "reachable ratio dm"
    and "normalize_artist_name a = normalize_artist_name b"
    and "evolves ratio (snd (get_canonical_artist a dm)) dm'"
  shows "fst (get_canonical_artist b dm') = fst (get_canonical_artist a dm)
       \<and> (\<forall>c. artist_mappings dm' (normalize_artist_name b) = Some c \<longrightarrow>
              get_canonical_artist b dm' = (c, dm'))"
proof -
  have "artist_mappings (snd (get_canonical_artist a dm)) (normalize_artist_name a)
           = Some (fst (get_canonical_artist a dm))"
    using assms(1) by (intro artist_result_stored reachable_same_dicts)
  then have "artist_mappings dm' (normalize_artist_name b)
           = Some (fst (get_canonical_artist a dm))"
    using assms(2,3) by (auto dest: evolves_kept)
  then show ?thesis by (simp add: artist_hit)
qed

theorem artist_resolution_by_key_witness:
  "reachable lcs_ratio DirectoryManager
   \<and> normalize_artist_name ''ACDC'' = normalize_artist_name ''AC/DC''
   \<and> evolves lcs_ratio (snd (get_canonical_artist ''ACDC'' DirectoryManager))
        (snd (get_canonical_artist ''Queen''
               (snd (get_canonical_artist ''ACDC'' DirectoryManager))))
   \<and> fst (get_canonical_artist ''AC/DC''
            (snd (get_canonical_artist ''Queen''
                   (snd (get_canonical_artist ''ACDC'' DirectoryManager))))) = ''ACDC''"
proof -
  have n: "normalize_artist_name ''ACDC'' = normalize_artist_name ''AC/DC''"
    by (simp add: norm_ACDC norm_AC_DC)
  have e: "evolves lcs_ratio (snd (get_canonical_artist ''ACDC'' DirectoryManager))
        (snd (get_canonical_artist ''Queen''
               (snd (get_canonical_artist ''ACDC'' DirectoryManager))))"
    by (intro evolves.intros)
  have "fst (get_canonical_artist ''AC/DC''
            (snd (get_canonical_artist ''Queen''
                   (snd (get_canonical_artist ''ACDC'' DirectoryManager)))))
        = fst (get_canonical_artist ''ACDC'' DirectoryManager)"
    using artist_resolution_by_key [OF reachable_start n e] by simp
  then show ?thesis
    using n e by (simp add: reachable_start first_ACDC)
qed

text \<open>
  C10. The artist mapping is write-once. In a registry that comes from
  \<^verbatim>\<open>DirectoryManager()\<close>, a key without a mapping gets the raw spelling that is resolved
  first, and a key that has a canonical form keeps it, in both dictionaries, through every
  later call of the registry's methods.
\<close>

theorem artist_mapping_write_once:
  assumes "reachable ratio dm"
  shows "(artist_mappings dm (normalize_artist_name a) = None \<longrightarrow>
            artist_mappings (snd (get_canonical_artist a dm)) (normalize_artist_name a)
              = Some a)
       \<and> (artist_mappings dm k = Some c \<and> evolves ratio dm dm' \<longrightarrow>
            artist_mappings dm' k = Some c \<and> canonical_cases dm' k = Some c)"
proof (intro conjI impI)
  assume "artist_mappings dm (normalize_artist_name a) = None"
  with reachable_same_dicts [OF assms]
  show "artist_mappings (snd (get_canonical_artist a dm)) (normalize_artist_name a) = Some a"
    by (simp add: artist_fresh store_artist_def)
next
  assume h: "artist_mappings dm k = Some c \<and> evolves ratio dm dm'"
  then show kept: "artist_mappings dm' k = Some c"
    by (auto dest: evolves_kept)
  have "reachable ratio dm'"
    using h assms unfolding reachable_def by (blast intro: evolves_trans)
  then have "artist_mappings dm' = canonical_cases dm'"
    by (rule reachable_same_dicts)
  with kept show "canonical_cases dm' k = Some c"
    by simp
qed

theorem artist_mapping_write_once_witness:
  "reachable lcs_ratio DirectoryManager
   \<and> artist_mappings DirectoryManager (normalize_artist_name ''ACDC'') = None
   \<and> artist_mappings (snd (get_canonical_artist ''ACDC'' DirectoryManager))
        (normalize_artist_name ''ACDC'') = Some ''ACDC''
   \<and> reachable lcs_ratio (snd (get_canonical_artist ''ACDC'' DirectoryManager))
   \<and> evolves lcs_ratio (snd (get_canonical_artist ''ACDC'' DirectoryManager))
        (snd (get_canonical_artist ''AC/DC''
               (snd (get_canonical_artist ''ACDC'' DirectoryManager))))
   \<and> artist_mappings
        (snd (get_canonical_artist ''AC/DC''
               (snd (get_canonical_artist ''ACDC'' DirectoryManager))))
        ''acdc'' = Some ''ACDC''
   \<and> canonical_cases
        (snd (get_canonical_artist ''AC/DC''
               (snd (get_canonical_artist ''ACDC'' DirectoryManager))))
        ''acdc'' = Some ''ACDC''"
proof -
  let ?d1 = "snd (get_canonical_artist ''ACDC'' DirectoryManager)"
  let ?d2 = "snd (get_canonical_artist ''AC/DC'' ?d1)"
  have fresh: "artist_mappings DirectoryManager (normalize_artist_name ''ACDC'') = None"
    by (simp add: DirectoryManager_def)
  have first: "artist_mappings ?d1 (normalize_artist_name ''ACDC'') = Some ''ACDC''"
    by (rule artist_mapping_write_once [OF reachable_start, THEN conjunct1, rule_format, OF fresh])
  have r1: "reachable lcs_ratio ?d1"
    unfolding reachable_def by (intro evolves.intros)
  have e: "evolves lcs_ratio ?d1 ?d2"
    by (intro evolves.intros)
  have "artist_mappings ?d2 ''acdc'' = Some ''ACDC'' \<and> canonical_cases ?d2 ''acdc'' = Some ''ACDC''"
    using first e
    by (intro artist_mapping_write_once [OF r1, THEN conjunct2, rule_format])
       (simp add: norm_ACDC)
  then show ?thesis
    using fresh first r1 e by (simp add: reachable_start)
qed

section \<open>File names\<close>

lemma length_zfill: "width \<le> length (zfill width s)"
  by (cases s) (auto simp: zfill_def)

text \<open>
  The track number that \<open>get_audio_metadata\<close> returns went through \<^verbatim>\<open>zfill(2)\<close>: it
  has two characters or more, and is never empty.
\<close>

lemma build_metadata_tracknumber:
  "build_metadata tags = Some md \<Longrightarrow> 2 \<le> length (tracknumber md)"
  by (auto simp: build_metadata_def length_zfill split: option.splits)

lemma extracted_tracknumber_not_empty:
  "get_audio_metadata filepath tf = Some md \<Longrightarrow> 2 \<le> length (tracknumber md)"
  by (auto simp: get_audio_metadata_def build_metadata_tracknumber
           split: if_splits tag_file.splits)

lemma new_filename_without_track:
  "tracknumber md = [] \<Longrightarrow>
   generate_new_filename md p = sanitize_filename (title md) @ lower (snd (splitext p))"
  by (simp add: generate_new_filename_def Let_def)

lemma metadata_Intro:
  "get_audio_metadata ''/music/intro.mp3'' (Tags [(''title'', [''Intro'']), (''artist'', [''X''])])
     = Some \<lparr>artist = ''X'', album = [], title = ''Intro'', tracknumber = ''00''\<rparr>"
  by code_simp

lemma metadata_Yesterday:
  "get_audio_metadata ''/music/yesterday.mp3''
     (Tags [(''title'', [''Yesterday'']), (''artist'', [''The Beatles'']),
            (''tracknumber'', [''3''])])
     = Some \<lparr>artist = ''The Beatles'', album = [], title = ''Yesterday'',
              tracknumber = ''03''\<rparr>"
  by code_simp

lemma filename_Intro:
  "generate_new_filename \<lparr>artist = ''X'', album = [], title = ''Intro'', tracknumber = ''00''\<rparr>
     ''/music/intro.mp3'' = ''00 - Intro.mp3''"
  by code_simp

lemma filename_Yesterday:
  "generate_new_filename
     \<lparr>artist = ''The Beatles'', album = [], title = ''Yesterday'', tracknumber = ''03''\<rparr>
     ''/music/yesterday.mp3'' = ''03 - Yesterday.mp3''"
  by code_simp

text \<open>
  C2. The claim: a file whose track number is empty gets the sanitised title and the
  extension as its new name, with no prefix; track number "3" gives "03 - Yesterday.mp3".
  The second half holds. The first does not: \<open>get_audio_metadata\<close> pads the track
  number it extracts with \<^verbatim>\<open>zfill(2)\<close>, the empty one too, so a file without a track
  number tag carries "00" and is named "00 - Intro.mp3"; the branch of
  \<open>generate_new_filename\<close> that leaves the prefix out is never taken for metadata that
  was extracted.
\<close>

theorem empty_track_number_named_00:
  "map_option (\<lambda>md. generate_new_filename md ''/music/intro.mp3'')
     (get_audio_metadata ''/music/intro.mp3''
        (Tags [(''title'', [''Intro'']), (''artist'', [''X''])]))
     = Some ''00 - Intro.mp3''
   \<and> map_option (\<lambda>md. generate_new_filename md ''/music/yesterday.mp3'')
     (get_audio_metadata ''/music/yesterday.mp3''
        (Tags [(''title'', [''Yesterday'']), (''artist'', [''The Beatles'']),
               (''tracknumber'', [''3''])]))
     = Some ''03 - Yesterday.mp3''"
  by (simp add: metadata_Intro metadata_Yesterday filename_Intro filename_Yesterday)

section \<open>One file of the pass\<close>

lemma dd_get_dd_append:
  "dd_get (dd_append k v d) k' = (if k' = k then dd_get d k @ [v] else dd_get d k')"
  by (induction d) (auto simp: dd_get_def)

lemma concat_dd_append:
  "\<exists>xs ys. concat (map snd (dd_append k e d)) = xs @ e # ys \<and> concat (map snd d) = xs @ ys"
proof (induction d)
  case Nil
  show ?case by simp
next
  case (Cons a d)
  obtain k' vs where a: "a = (k', vs)" by (cases a)
  show ?case
  proof (cases "k = k'")
    case True
    have "concat (map snd (dd_append k e (a # d))) = vs @ e # concat (map snd d)
          \<and> concat (map snd (a # d)) = vs @ concat (map snd d)"
      using True by (simp add: a)
    then show ?thesis by (intro exI)
  next
    case False
    from Cons.IH obtain xs ys where
      IH: "concat (map snd (dd_append k e d)) = xs @ e # ys" "concat (map snd d) = xs @ ys"
      by (elim exE conjE)
    have "concat (map snd (dd_append k e (a # d))) = (vs @ xs) @ e # ys
          \<and> concat (map snd (a # d)) = (vs @ xs) @ ys"
      using False IH by (simp add: a)
    then show ?thesis by (intro exI)
  qed
qed

lemma plan_paths_dd_append:
  "set (plan_paths (dd_append k e d)) = insert (original_path e) (set (plan_paths d))"
proof -
  obtain xs ys where "concat (map snd (dd_append k e d)) = xs @ e # ys"
    and "concat (map snd d) = xs @ ys"
    using concat_dd_append [of k e d] by (elim exE conjE)
  then show ?thesis by (simp add: plan_paths_def)
qed

lemma MusicFile_needs_metadata:
  "MusicFile p f = Inr mf \<Longrightarrow> \<exists>md. get_audio_metadata p (tag_data f) = Some md"
  by (auto simp: MusicFile_def split: sum.splits option.splits)

lemma MusicFile_path: "MusicFile p f = Inr mf \<Longrightarrow> mf_path mf = p"
  by (auto simp: MusicFile_def split: sum.splits option.splits)


lemma process_file_no_metadata:
  "get_audio_metadata (full_path_of f) (tag_data f) = None \<Longrightarrow>
   process_file ratio root st f =
     skip (full_path_of f) ''Missing required metadata (title/artist)'' st"
  by (simp add: process_file_def full_path_of_def)

lemma process_file_error:
  "get_audio_metadata (full_path_of f) (tag_data f) = Some md \<Longrightarrow>
   MusicFile (full_path_of f) f = Inl e \<Longrightarrow>
   process_file ratio root st f =
     skip (full_path_of f) (''Error processing file: '' @ e)
       (st\<lparr>directory_manager := snd (resolved ratio md (directory_manager st))\<rparr>)"
  by (simp add: process_file_def full_path_of_def resolved_def Let_def case_prod_beta)

lemma process_file_dup:
  "get_audio_metadata (full_path_of f) (tag_data f) = Some md \<Longrightarrow>
   MusicFile (full_path_of f) f = Inr mf \<Longrightarrow>
   unique_files st (mf_hash mf) = Some u \<Longrightarrow>
   process_file ratio root st f =
     st\<lparr>directory_manager := snd (resolved ratio md (directory_manager st)),
        duplicates := dd_append (mf_hash mf) (full_path_of f) (duplicates st)\<rparr>"
  by (simp add: process_file_def full_path_of_def resolved_def Let_def case_prod_beta)

lemma process_file_keep:
  "get_audio_metadata (full_path_of f) (tag_data f) = Some md \<Longrightarrow>
   MusicFile (full_path_of f) f = Inr mf \<Longrightarrow>
   unique_files st (mf_hash mf) = None \<Longrightarrow>
   process_file ratio root st f =
     (let r = resolved ratio md (directory_manager st) in
      st\<lparr>directory_manager := snd r,
         unique_files := (unique_files st)(mf_hash mf \<mapsto> mf\<lparr>mf_metadata := fst r\<rparr>),
         proposed_moves :=
           dd_append
             (path_join root [sanitize_filename (artist (fst r)), sanitize_filename (album (fst r))])
             \<lparr>original_path = full_path_of f, current_filename = filename f,
              new_filename = mf_new_filename mf, move_metadata = fst r\<rparr>
             (proposed_moves st)\<rparr>)"
  by (simp add: process_file_def full_path_of_def resolved_def Let_def case_prod_beta)


lemma observed_digest_None:
  "MusicFile (full_path_of f) f = Inl e \<Longrightarrow> observed_digest f = None"
  by (simp add: observed_digest_def)

lemma observed_digest_Some:
  "MusicFile (full_path_of f) f = Inr mf \<Longrightarrow> observed_digest f = Some (mf_hash mf)"
  by (simp add: observed_digest_def)

lemma no_metadata_no_digest:
  "get_audio_metadata (full_path_of f) (tag_data f) = None \<Longrightarrow> observed_digest f = None"
  by (auto simp: observed_digest_def MusicFile_def split: sum.splits)

text \<open>What one file does to the duplicate lists, the representatives, the plan and the skips.\<close>

lemma process_file_duplicates:
  "duplicates (process_file ratio root st f) =
     (case observed_digest f of
        None \<Rightarrow> duplicates st
      | Some h \<Rightarrow> (case representative st h of
                     None \<Rightarrow> duplicates st
                   | Some _ \<Rightarrow> dd_append h (full_path_of f) (duplicates st)))"
proof (cases "get_audio_metadata (full_path_of f) (tag_data f)")
  case None
  then show ?thesis
    by (simp add: process_file_no_metadata no_metadata_no_digest skip_def)
next
  case (Some md)
  show ?thesis
  proof (cases "MusicFile (full_path_of f) f")
    case (Inl e)
    then show ?thesis
      by (simp add: process_file_error [OF Some] observed_digest_None skip_def)
  next
    case (Inr mf)
    show ?thesis
    proof (cases "unique_files st (mf_hash mf)")
      case None
      then show ?thesis
        by (simp add: process_file_keep [OF Some Inr] observed_digest_Some [OF Inr]
                      representative_def Let_def)
    next
      case (Some u)
      then show ?thesis
        by (simp add: process_file_dup [OF \<open>get_audio_metadata (full_path_of f) (tag_data f) = Some md\<close> Inr]
                      observed_digest_Some [OF Inr] representative_def)
    qed
  qed
qed

lemma representative_same:
  "unique_files st' = unique_files st \<Longrightarrow> representative st' = representative st"
  by (rule ext) (simp add: representative_def)

lemma representative_new:
  "unique_files st' = (unique_files st)(h \<mapsto> mf) \<Longrightarrow>
   representative st' = (representative st)(h \<mapsto> mf_path mf)"
  by (rule ext) (simp add: representative_def)

lemma process_file_representative:
  "representative (process_file ratio root st f) =
     (case observed_digest f of
        None \<Rightarrow> representative st
      | Some h \<Rightarrow> (case representative st h of
                     None \<Rightarrow> (representative st)(h \<mapsto> full_path_of f)
                   | Some _ \<Rightarrow> representative st))"
proof (cases "get_audio_metadata (full_path_of f) (tag_data f)")
  case None
  have "unique_files (process_file ratio root st f) = unique_files st"
    by (simp add: process_file_no_metadata [OF None] skip_def)
  then have "representative (process_file ratio root st f) = representative st"
    by (rule representative_same)
  then show ?thesis
    by (simp add: no_metadata_no_digest [OF None])
next
  case (Some md)
  show ?thesis
  proof (cases "MusicFile (full_path_of f) f")
    case (Inl e)
    have "unique_files (process_file ratio root st f) = unique_files st"
      by (simp add: process_file_error [OF Some Inl] skip_def)
    then have "representative (process_file ratio root st f) = representative st"
      by (rule representative_same)
    then show ?thesis
      by (simp add: observed_digest_None [OF Inl])
  next
    case (Inr mf)
    note md = \<open>get_audio_metadata (full_path_of f) (tag_data f) = Some md\<close>
    show ?thesis
    proof (cases "unique_files st (mf_hash mf)")
      case None
      have "unique_files (process_file ratio root st f) =
              (unique_files st)(mf_hash mf \<mapsto> mf\<lparr>mf_metadata :=
                 fst (resolved ratio md (directory_manager st))\<rparr>)"
        by (simp add: process_file_keep [OF md Inr None] Let_def)
      then have "representative (process_file ratio root st f) =
              (representative st)(mf_hash mf \<mapsto> mf_path (mf\<lparr>mf_metadata :=
                 fst (resolved ratio md (directory_manager st))\<rparr>))"
        by (rule representative_new)
      moreover have "representative st (mf_hash mf) = None"
        by (simp add: representative_def None)
      ultimately show ?thesis
        by (simp add: observed_digest_Some [OF Inr] MusicFile_path [OF Inr])
    next
      case (Some u)
      have "unique_files (process_file ratio root st f) = unique_files st"
        by (simp add: process_file_dup [OF md Inr Some])
      then have "representative (process_file ratio root st f) = representative st"
        by (rule representative_same)
      moreover have "representative st (mf_hash mf) = Some (mf_path u)"
        by (simp add: representative_def Some)
      ultimately show ?thesis
        by (simp add: observed_digest_Some [OF Inr])
    qed
  qed
qed

lemma process_file_plan:
  "set (plan_paths (proposed_moves (process_file ratio root st f))) =
     (case observed_digest f of
        None \<Rightarrow> set (plan_paths (proposed_moves st))
      | Some h \<Rightarrow> (case representative st h of
                     None \<Rightarrow> insert (full_path_of f) (set (plan_paths (proposed_moves st)))
                   | Some _ \<Rightarrow> set (plan_paths (proposed_moves st))))"
proof (cases "get_audio_metadata (full_path_of f) (tag_data f)")
  case None
  then show ?thesis
    by (simp add: process_file_no_metadata no_metadata_no_digest skip_def)
next
  case (Some md)
  show ?thesis
  proof (cases "MusicFile (full_path_of f) f")
    case (Inl e)
    then show ?thesis
      by (simp add: process_file_error [OF Some] observed_digest_None skip_def)
  next
    case (Inr mf)
    show ?thesis
    proof (cases "unique_files st (mf_hash mf)")
      case None
      then show ?thesis
        by (simp add: process_file_keep [OF Some Inr] observed_digest_Some [OF Inr]
                      representative_def Let_def plan_paths_dd_append)
    next
      case (Some u)
      then show ?thesis
        by (simp add: process_file_dup [OF \<open>get_audio_metadata (full_path_of f) (tag_data f) = Some md\<close> Inr]
                      observed_digest_Some [OF Inr] representative_def)
    qed
  qed
qed

lemma process_file_skipped:
  "skipped_files (process_file ratio root st f) = skipped_files st @ skip_record f"
proof (cases "get_audio_metadata (full_path_of f) (tag_data f)")
  case None
  then show ?thesis
    by (simp add: process_file_no_metadata skip_def skip_record_def skip_reason_def)
next
  case (Some md)
  show ?thesis
  proof (cases "MusicFile (full_path_of f) f")
    case (Inl e)
    then show ?thesis
      by (simp add: process_file_error [OF Some Inl] skip_def skip_record_def
                    skip_reason_def Some)
  next
    case (Inr mf)
    note md = Some
    show ?thesis
    proof (cases "unique_files st (mf_hash mf)")
      case None
      then show ?thesis
        by (simp add: process_file_keep [OF md Inr None] Let_def skip_record_def
                      skip_reason_def md Inr)
    next
      case (Some u)
      then show ?thesis
        by (simp add: process_file_dup [OF md Inr Some] skip_record_def skip_reason_def md Inr)
    qed
  qed
qed

section \<open>The whole pass\<close>

text \<open>The pass from any state \<open>st\<close>, by induction on the files that remain.\<close>

lemma pass_skipped:
  "skipped_files (foldl (process_file ratio root) st fs) =
     skipped_files st @ concat (map skip_record fs)"
  by (induction fs arbitrary: st) (simp_all add: process_file_skipped)

lemma pass_representative_seen:
  "representative st h = Some p \<Longrightarrow>
   representative (foldl (process_file ratio root) st fs) h = Some p"
proof (induction fs arbitrary: st)
  case Nil
  then show ?case by simp
next
  case (Cons f fs)
  have "representative (process_file ratio root st f) h = Some p"
    using Cons.prems
    by (auto simp: process_file_representative split: option.splits)
  then show ?case
    by (simp add: Cons.IH)
qed

lemma pass_representative_first:
  "representative st h = None \<Longrightarrow>
   representative (foldl (process_file ratio root) st fs) h =
     map_option full_path_of (find (\<lambda>g. observed_digest g = Some h) fs)"
proof (induction fs arbitrary: st)
  case Nil
  then show ?case by simp
next
  case (Cons f fs)
  show ?case
  proof (cases "observed_digest f = Some h")
    case True
    then have "representative (process_file ratio root st f) h = Some (full_path_of f)"
      using Cons.prems by (simp add: process_file_representative)
    then show ?thesis
      using True by (simp add: pass_representative_seen)
  next
    case False
    then have "representative (process_file ratio root st f) h = None"
      using Cons.prems
      by (auto simp: process_file_representative split: option.splits)
    then show ?thesis
      using False by (simp add: Cons.IH)
  qed
qed

lemma pass_duplicates_seen:
  "representative st h = Some p \<Longrightarrow>
   dd_get (duplicates (foldl (process_file ratio root) st fs)) h =
     dd_get (duplicates st) h @
     map full_path_of (filter (\<lambda>g. observed_digest g = Some h) fs)"
proof (induction fs arbitrary: st)
  case Nil
  then show ?case by simp
next
  case (Cons f fs)
  have seen: "representative (process_file ratio root st f) h = Some p"
    using Cons.prems
    by (auto simp: process_file_representative split: option.splits)
  have "dd_get (duplicates (process_file ratio root st f)) h =
          dd_get (duplicates st) h @
          (if observed_digest f = Some h then [full_path_of f] else [])"
    using Cons.prems
    by (auto simp: process_file_duplicates dd_get_dd_append split: option.splits)
  then show ?case
    by (simp add: Cons.IH [OF seen])
qed

lemma pass_duplicates_first:
  "representative st h = None \<Longrightarrow>
   dd_get (duplicates (foldl (process_file ratio root) st fs)) h =
     dd_get (duplicates st) h @
     map full_path_of (tl (filter (\<lambda>g. observed_digest g = Some h) fs))"
proof (induction fs arbitrary: st)
  case Nil
  then show ?case by simp
next
  case (Cons f fs)
  have same: "dd_get (duplicates (process_file ratio root st f)) h = dd_get (duplicates st) h"
    using Cons.prems
    by (auto simp: process_file_duplicates dd_get_dd_append split: option.splits)
  show ?case
  proof (cases "observed_digest f = Some h")
    case True
    then have "representative (process_file ratio root st f) h = Some (full_path_of f)"
      using Cons.prems by (simp add: process_file_representative)
    then show ?thesis
      using True same by (simp add: pass_duplicates_seen)
  next
    case False
    then have "representative (process_file ratio root st f) h = None"
      using Cons.prems
      by (auto simp: process_file_representative split: option.splits)
    then show ?thesis
      using False same by (simp add: Cons.IH)
  qed
qed

text \<open>The plan holds the representatives' paths and nothing else.\<close>

lemma process_file_plan_representatives:
  assumes "set (plan_paths (proposed_moves st)) = ran (representative st)"
  shows "set (plan_paths (proposed_moves (process_file ratio root st f))) =
         ran (representative (process_file ratio root st f))"
proof (cases "observed_digest f")
  case None
  then show ?thesis
    using assms by (simp add: process_file_plan process_file_representative)
next
  case (Some h)
  then show ?thesis
    using assms
    by (cases "representative st h")
       (simp_all add: process_file_plan process_file_representative)
qed

lemma pass_plan_representatives:
  "set (plan_paths (proposed_moves st)) = ran (representative st) \<Longrightarrow>
   set (plan_paths (proposed_moves (foldl (process_file ratio root) st fs))) =
   ran (representative (foldl (process_file ratio root) st fs))"
  by (induction fs arbitrary: st) (simp_all add: process_file_plan_representatives)

lemma start_representative: "representative start h = None"
  by (simp add: representative_def start_def)

lemma scan_representative:
  "representative (scan ratio root start files) h =
     map_option full_path_of
       (find (\<lambda>g. observed_digest g = Some h) (filter is_music files))"
  by (simp add: scan_def pass_representative_first start_representative)

lemma scan_duplicates:
  "dd_get (duplicates (scan ratio root start files)) h =
     map full_path_of (tl (filter (\<lambda>g. observed_digest g = Some h) (filter is_music files)))"
  by (simp add: scan_def pass_duplicates_first start_representative)
     (simp add: start_def dd_get_def)

lemma scan_plan:
  "set (plan_paths (proposed_moves (scan ratio root start files))) =
   ran (representative (scan ratio root start files))"
  unfolding scan_def
proof (rule pass_plan_representatives)
  have "representative start = Map.empty"
    by (rule ext) (simp add: start_representative)
  then show "set (plan_paths (proposed_moves start)) = ran (representative start)"
    by (simp add: start_def plan_paths_def)
qed

lemma scan_skipped:
  "skipped_files (scan ratio root start files) =
     concat (map skip_record (filter is_music files))"
  by (simp add: scan_def pass_skipped) (simp add: start_def)

section \<open>Duplicates\<close>

lemma find_skips:
  "\<forall>x \<in> set xs. \<not> P x \<Longrightarrow> find P (xs @ ys) = find P ys"
  by (induction xs) simp_all

lemma find_in_front:
  "\<exists>x \<in> set xs. P x \<Longrightarrow> \<exists>g \<in> set xs. find P (xs @ ys) = Some g"
  by (induction xs) auto

lemma find_found: "find P xs = Some x \<Longrightarrow> x \<in> set xs \<and> P x"
  by (induction xs) (auto split: if_splits)

lemma same_path_same_file:
  assumes "distinct (map full_path_of fs)" and "g \<in> set fs" and "f \<in> set fs"
    and "full_path_of g = full_path_of f"
  shows "g = f"
proof -
  have "inj_on full_path_of (set fs)"
    using assms(1) by (simp add: distinct_map)
  then show ?thesis
    using assms(2-4) by (simp add: inj_on_eq_iff)
qed

text \<open>A path in the plan is the path of the first file of the pass with some digest.\<close>

lemma scan_plan_first:
  assumes "p \<in> set (plan_paths (proposed_moves (scan ratio root start files)))"
  shows "\<exists>h g. find (\<lambda>g. observed_digest g = Some h) (filter is_music files) = Some g
               \<and> full_path_of g = p"
proof -
  from assms obtain h where "representative (scan ratio root start files) h = Some p"
    by (auto simp: scan_plan ran_def)
  then show ?thesis
    by (auto simp: scan_representative)
qed

text \<open>
  C5. In one pass over files with distinct paths, take a file \<open>f\<close> that the pass observes
  with digest \<open>h\<close>. If no file before it was observed with \<open>h\<close>, \<open>f\<close> is in the move
  plan, is the representative of \<open>h\<close> and is not in the duplicate group of \<open>h\<close>. If some
  file before it was observed with \<open>h\<close>, \<open>f\<close> is in the duplicate group of \<open>h\<close>, is not
  in the move plan, and the representative of \<open>h\<close> is a file before \<open>f\<close>. The duplicate
  group of \<open>h\<close> lists, in the order of the pass, every file observed with \<open>h\<close> but the
  first.
\<close>

theorem first_kept_later_duplicates:
  assumes files: "files = pre @ f # post"
    and music: "is_music f"
    and digest: "observed_digest f = Some h"
    and paths: "distinct (map full_path_of files)"
  shows "((\<forall>g \<in> set pre. is_music g \<longrightarrow> observed_digest g \<noteq> Some h) \<longrightarrow>
            full_path_of f \<in> set (plan_paths (proposed_moves (scan ratio root start files)))
          \<and> representative (scan ratio root start files) h = Some (full_path_of f)
          \<and> full_path_of f \<notin> set (dd_get (duplicates (scan ratio root start files)) h))
       \<and> ((\<exists>g \<in> set pre. is_music g \<and> observed_digest g = Some h) \<longrightarrow>
            full_path_of f \<in> set (dd_get (duplicates (scan ratio root start files)) h)
          \<and> full_path_of f \<notin> set (plan_paths (proposed_moves (scan ratio root start files)))
          \<and> (\<exists>g \<in> set pre. representative (scan ratio root start files) h
                              = Some (full_path_of g))
          \<and> representative (scan ratio root start files) h \<noteq> Some (full_path_of f))
       \<and> dd_get (duplicates (scan ratio root start files)) h =
           map full_path_of
             (tl (filter (\<lambda>g. observed_digest g = Some h) (filter is_music files)))"
proof -
  let ?D = "\<lambda>g. observed_digest g = Some h"
  let ?final = "scan ratio root start files"
  let ?pre = "filter is_music pre"
  let ?post = "filter is_music post"
  let ?p = "full_path_of f"
  have fs: "filter is_music files = ?pre @ f # ?post"
    using files music by simp
  have dist: "distinct (map full_path_of (filter is_music files))"
    using paths by (rule distinct_map_filter)
  have f_in: "f \<in> set (filter is_music files)"
    by (simp add: fs)
  have apart: "?p \<notin> full_path_of ` set pre \<and> ?p \<notin> full_path_of ` set post"
    using paths by (simp add: files)
  have not_before: "\<forall>g \<in> set pre. full_path_of g \<noteq> ?p"
    using apart by (metis imageI)
  have not_after: "\<forall>g \<in> set post. full_path_of g \<noteq> ?p"
    using apart by (metis imageI)
  have dups: "dd_get (duplicates ?final) h =
      map full_path_of (tl (filter ?D (filter is_music files)))"
    by (rule scan_duplicates)
  have first: "full_path_of f \<in> set (plan_paths (proposed_moves ?final))
          \<and> representative ?final h = Some ?p
          \<and> ?p \<notin> set (dd_get (duplicates ?final) h)"
    if none: "\<forall>g \<in> set pre. is_music g \<longrightarrow> observed_digest g \<noteq> Some h"
  proof -
    have "\<forall>g \<in> set ?pre. \<not> ?D g"
      using none by simp
    then have found: "find ?D (filter is_music files) = Some f"
      and groups: "filter ?D (filter is_music files) = f # filter ?D ?post"
      using digest by (simp_all add: fs find_skips filter_empty_conv)
    have rep: "representative ?final h = Some ?p"
      by (simp add: scan_representative found)
    then have "?p \<in> ran (representative ?final)"
      by (auto simp: ran_def)
    then have "?p \<in> set (plan_paths (proposed_moves ?final))"
      by (simp add: scan_plan)
    moreover have "dd_get (duplicates ?final) h = map full_path_of (filter ?D ?post)"
      unfolding dups groups by simp
    then have "?p \<notin> set (dd_get (duplicates ?final) h)"
      using not_after by auto
    ultimately show ?thesis
      using rep by simp
  qed
  have later: "?p \<in> set (dd_get (duplicates ?final) h)
          \<and> ?p \<notin> set (plan_paths (proposed_moves ?final))
          \<and> (\<exists>g \<in> set pre. representative ?final h = Some (full_path_of g))
          \<and> representative ?final h \<noteq> Some ?p"
    if some: "\<exists>g \<in> set pre. is_music g \<and> observed_digest g = Some h"
  proof -
    have ex: "\<exists>g \<in> set ?pre. ?D g"
      using some by auto
    then have "\<exists>g \<in> set ?pre. find ?D (?pre @ f # ?post) = Some g"
      by (rule find_in_front)
    then obtain g0 where g0: "g0 \<in> set ?pre" "find ?D (filter is_music files) = Some g0"
      unfolding fs by (elim bexE)
    have rep: "representative ?final h = Some (full_path_of g0)"
      by (simp add: scan_representative g0(2))
    have g0_pre: "g0 \<in> set pre"
      using g0(1) by simp
    have other: "full_path_of g0 \<noteq> ?p"
      using not_before g0_pre by auto
    have "filter ?D ?pre \<noteq> []"
      using ex by (auto simp: filter_empty_conv)
    moreover have "filter ?D (filter is_music files) = filter ?D ?pre @ f # filter ?D ?post"
      unfolding fs using digest by (simp del: filter_filter)
    ultimately have "tl (filter ?D (filter is_music files))
        = tl (filter ?D ?pre) @ f # filter ?D ?post"
      by (simp del: filter_filter)
    then have in_group: "?p \<in> set (dd_get (duplicates ?final) h)"
      unfolding dups by simp
    have "?p \<notin> set (plan_paths (proposed_moves ?final))"
    proof
      assume "?p \<in> set (plan_paths (proposed_moves ?final))"
      then obtain h' g where g: "find (\<lambda>g. observed_digest g = Some h') (filter is_music files) = Some g"
        and gp: "full_path_of g = ?p"
        using scan_plan_first by blast
      from g have "g \<in> set (filter is_music files)" and gd: "observed_digest g = Some h'"
        by (auto dest: find_found simp del: filter_filter set_filter)
      then have "g = f"
        using dist f_in gp by (intro same_path_same_file)
      with gd digest have "h' = h"
        by simp
      with g g0(2) \<open>g = f\<close> have "g0 = f"
        by simp
      with other show False
        by simp
    qed
    then show ?thesis
      using in_group rep other g0_pre by auto
  qed
  show ?thesis
    using first later dups by blast
qed

section \<open>Skipped files\<close>

lemma skip_record_path: "e \<in> set (skip_record g) \<Longrightarrow> skip_path e = full_path_of g"
  by (auto simp: skip_record_def split: option.splits)

lemma skip_records_elsewhere:
  assumes "\<forall>g \<in> set fs. full_path_of g \<noteq> p"
  shows "filter (\<lambda>e. skip_path e = p) (concat (map skip_record fs)) = []"
proof -
  have "skip_path e \<noteq> p" if "e \<in> set (concat (map skip_record fs))" for e
  proof -
    from that obtain y where y: "y \<in> set fs" and "e \<in> set (skip_record y)"
      by auto
    then have "skip_path e = full_path_of y"
      by (intro skip_record_path)
    then show ?thesis
      using assms y by simp
  qed
  then show ?thesis
    by (simp add: filter_empty_conv del: set_concat)
qed

lemma skip_records_of_file:
  assumes "distinct (map full_path_of fs)" and "f \<in> set fs"
  shows "filter (\<lambda>e. skip_path e = full_path_of f) (concat (map skip_record fs))
           = skip_record f"
  using assms
proof (induction fs)
  case Nil
  then show ?case by simp
next
  case (Cons g fs)
  have own: "filter (\<lambda>e. skip_path e = full_path_of x) (skip_record x) = skip_record x" for x
    by (simp add: filter_id_conv skip_record_path)
  show ?case
  proof (cases "g = f")
    case True
    have "\<forall>x \<in> set fs. full_path_of x \<noteq> full_path_of f"
      using Cons.prems(1) True by (metis distinct.simps(2) imageI list.simps(9) set_map)
    then have "filter (\<lambda>e. skip_path e = full_path_of f) (concat (map skip_record fs)) = []"
      by (rule skip_records_elsewhere)
    then show ?thesis
      using True own by simp
  next
    case False
    then have f_in: "f \<in> set fs"
      using Cons.prems(2) by simp
    then have "full_path_of g \<noteq> full_path_of f"
      using Cons.prems(1) by (metis distinct.simps(2) imageI list.simps(9) set_map)
    then have "\<forall>e \<in> set (skip_record g). skip_path e \<noteq> full_path_of f"
      using skip_record_path [of _ g] by simp
    then have "filter (\<lambda>e. skip_path e = full_path_of f) (skip_record g) = []"
      by (simp only: filter_empty_conv)
    moreover have "filter (\<lambda>e. skip_path e = full_path_of f) (concat (map skip_record fs))
           = skip_record f"
      using Cons.prems(1) f_in by (intro Cons.IH) simp_all
    ultimately show ?thesis
      by simp
  qed
qed

lemma no_artist_no_metadata:
  assumes "\<forall>tags. tag_data f = Tags tags \<longrightarrow> map_of tags ''artist'' = None"
  shows "get_audio_metadata p (tag_data f) = None"
  using assms by (cases "tag_data f") (simp_all add: get_audio_metadata_def)

lemma analyze_results:
  "analyze_music_directory ratio root files =
     (proposed_moves (scan ratio root start files),
      duplicates (scan ratio root start files),
      skipped_files (scan ratio root start files))"
  by (simp add: analyze_music_directory_def Let_def)

lemma no_metadata_skipped_once:
  assumes "f \<in> set files" and "is_music f" and "distinct (map full_path_of files)"
    and "get_audio_metadata (full_path_of f) (tag_data f) = None"
  shows "full_path_of f \<notin> set (plan_paths (proposed_moves (scan ratio root start files)))"
    and "filter (\<lambda>e. skip_path e = full_path_of f) (skipped_files (scan ratio root start files))
           = [\<lparr>skip_path = full_path_of f,
                reason = ''Missing required metadata (title/artist)''\<rparr>]"
proof -
  have f_in: "f \<in> set (filter is_music files)"
    using assms(1,2) by simp
  have dist: "distinct (map full_path_of (filter is_music files))"
    using assms(3) by (rule distinct_map_filter)
  show "full_path_of f \<notin> set (plan_paths (proposed_moves (scan ratio root start files)))"
  proof
    assume "full_path_of f \<in> set (plan_paths (proposed_moves (scan ratio root start files)))"
    then obtain h g where
      g: "find (\<lambda>g. observed_digest g = Some h) (filter is_music files) = Some g"
      and gp: "full_path_of g = full_path_of f"
      using scan_plan_first by blast
    from g have "g \<in> set (filter is_music files)" and gd: "observed_digest g = Some h"
      by (auto dest: find_found simp del: filter_filter set_filter)
    then have "g = f"
      using dist f_in gp by (intro same_path_same_file)
    with gd show False
      by (simp add: no_metadata_no_digest [OF assms(4)])
  qed
  have "skip_record f = [\<lparr>skip_path = full_path_of f,
                reason = ''Missing required metadata (title/artist)''\<rparr>]"
    by (simp add: skip_record_def skip_reason_def assms(4))
  then show "filter (\<lambda>e. skip_path e = full_path_of f)
        (skipped_files (scan ratio root start files))
           = [\<lparr>skip_path = full_path_of f,
                reason = ''Missing required metadata (title/artist)''\<rparr>]"
    by (simp add: scan_skipped skip_records_of_file [OF dist f_in])
qed

text \<open>
  C3, as amended. A file whose tags hold no artist entry (or that has no readable tags) is
  never added to the move plan, and the skip list holds exactly one entry for it, with the
  reason "Missing required metadata (title/artist)". The files of a pass have distinct
  paths. The test of the code is the presence of the tag, not its content.
\<close>

theorem no_artist_tag_skipped_once:
  assumes "f \<in> set files" and "is_music f" and "distinct (map full_path_of files)"
    and "\<forall>tags. tag_data f = Tags tags \<longrightarrow> map_of tags ''artist'' = None"
  shows "case analyze_music_directory ratio root files of
           (moves, dups, skipped) \<Rightarrow>
             full_path_of f \<notin> set (plan_paths moves)
           \<and> filter (\<lambda>e. skip_path e = full_path_of f) skipped
               = [\<lparr>skip_path = full_path_of f,
                    reason = ''Missing required metadata (title/artist)''\<rparr>]"
proof -
  have "get_audio_metadata (full_path_of f) (tag_data f) = None"
    using assms(4) by (rule no_artist_no_metadata)
  then show ?thesis
    using no_metadata_skipped_once [OF assms(1-3)] by (simp add: analyze_results)
qed

section \<open>Errors while a file is processed\<close>

lemma hash_error_raises: "hash_result f = Inl e \<Longrightarrow> MusicFile p f = Inl e"
  by (simp add: MusicFile_def)

lemma find_first_of_filter:
  "find P xs = (case filter P xs of [] \<Rightarrow> None | x # _ \<Rightarrow> Some x)"
  by (induction xs) simp_all

lemma dd_get_in_values: "set (dd_get d k) \<subseteq> set (concat (map snd d))"
proof (cases "map_of d k")
  case None
  then show ?thesis by (simp add: dd_get_def)
next
  case (Some vs)
  then have "(k, vs) \<in> set d"
    by (rule map_of_SomeD)
  then have "set vs \<subseteq> set (concat (map snd d))"
    by force
  then show ?thesis
    by (simp add: dd_get_def Some)
qed

lemma skip_reason_or_digest:
  "skip_reason g = None \<Longrightarrow> \<exists>h. observed_digest g = Some h"
  by (auto simp: skip_reason_def observed_digest_def split: option.splits sum.splits)

text \<open>Every music file of the pass ends in the plan, in a duplicate group or in the skips.\<close>

lemma every_file_accounted:
  assumes "g \<in> set files" and "is_music g"
  shows "full_path_of g \<in> set (plan_paths (proposed_moves (scan ratio root start files)))
           \<union> set (duplicate_paths (duplicates (scan ratio root start files)))
           \<union> skip_path ` set (skipped_files (scan ratio root start files))"
proof (cases "skip_reason g")
  case (Some why)
  have "\<lparr>skip_path = full_path_of g, reason = why\<rparr> \<in> set (skip_record g)"
    by (simp add: skip_record_def Some)
  then have "\<lparr>skip_path = full_path_of g, reason = why\<rparr>
      \<in> set (skipped_files (scan ratio root start files))"
    using assms by (auto simp: scan_skipped)
  then have "skip_path \<lparr>skip_path = full_path_of g, reason = why\<rparr>
      \<in> skip_path ` set (skipped_files (scan ratio root start files))"
    by (rule imageI)
  then show ?thesis
    by simp
next
  case None
  then obtain h where h: "observed_digest g = Some h"
    using skip_reason_or_digest by blast
  let ?G = "filter (\<lambda>x. observed_digest x = Some h) (filter is_music files)"
  have "g \<in> set ?G"
    using assms h by simp
  then obtain x xs where G: "?G = x # xs"
    by (cases ?G) (simp_all del: filter_filter set_filter)
  show ?thesis
  proof (cases "g = x")
    case True
    have "representative (scan ratio root start files) h = Some (full_path_of g)"
      unfolding scan_representative find_first_of_filter G using True by simp
    then have "full_path_of g \<in> ran (representative (scan ratio root start files))"
      by (auto simp: ran_def)
    then show ?thesis
      by (simp add: scan_plan)
  next
    case False
    then have "g \<in> set xs"
      using \<open>g \<in> set ?G\<close> unfolding G by simp
    then have "full_path_of g \<in> set (dd_get (duplicates (scan ratio root start files)) h)"
      unfolding scan_duplicates G by simp
    then show ?thesis
      using dd_get_in_values by (fastforce simp: duplicate_paths_def)
  qed
qed

lemma unreadable_no_metadata:
  "tag_data f = Unreadable \<Longrightarrow> get_audio_metadata p (tag_data f) = None"
  by (simp add: get_audio_metadata_def)

text \<open>
  C9, as amended. When processing a music file raises, either in the tag library
  (\<open>Unreadable\<close>) or in \<^verbatim>\<open>MusicFile\<close> (hashing the file or asking its size fails with
  message \<open>e\<close>), the pass records the file in the skip list and goes on: the result is
  that of processing the files after it from the state the failing file left, and every
  music file of the pass is in the plan, in a duplicate group or in the skip list. The
  reason recorded is "Error processing file: " followed by \<open>e\<close> only when the metadata of
  the file had been extracted; when there is none (\<open>get_audio_metadata\<close> has swallowed the
  exception of the tag library, and the file is never hashed), it is "Missing required
  metadata (title/artist)". The pass is a total function: it returns for every list of
  files.
\<close>

theorem processing_error_is_skipped:
  assumes "files = pre @ f # post" and "is_music f"
    and "tag_data f = Unreadable \<or> MusicFile (full_path_of f) f = Inl e"
  shows "(case analyze_music_directory ratio root files of
            (moves, dups, skipped) \<Rightarrow>
              \<lparr>skip_path = full_path_of f,
               reason = (case get_audio_metadata (full_path_of f) (tag_data f) of
                           None \<Rightarrow> ''Missing required metadata (title/artist)''
                         | Some md \<Rightarrow> ''Error processing file: '' @ e)\<rparr>
                \<in> set skipped
            \<and> (\<forall>g \<in> set files. is_music g \<longrightarrow>
                  full_path_of g \<in> set (plan_paths moves) \<union> set (duplicate_paths dups)
                                    \<union> skip_path ` set skipped))
       \<and> scan ratio root start files =
           scan ratio root (process_file ratio root (scan ratio root start pre) f) post"
proof -
  let ?why = "case get_audio_metadata (full_path_of f) (tag_data f) of
                None \<Rightarrow> ''Missing required metadata (title/artist)''
              | Some md \<Rightarrow> ''Error processing file: '' @ e"
  have "skip_reason f = Some ?why"
  proof (cases "get_audio_metadata (full_path_of f) (tag_data f)")
    case None
    then show ?thesis
      by (simp add: skip_reason_def)
  next
    case (Some md)
    then have "tag_data f \<noteq> Unreadable"
      using unreadable_no_metadata [of f "full_path_of f"] by auto
    then have "MusicFile (full_path_of f) f = Inl e"
      using assms(3) by simp
    then show ?thesis
      by (simp add: skip_reason_def Some)
  qed
  then have "skip_record f = [\<lparr>skip_path = full_path_of f, reason = ?why\<rparr>]"
    by (simp add: skip_record_def)
  then have "\<lparr>skip_path = full_path_of f, reason = ?why\<rparr>
      \<in> set (skipped_files (scan ratio root start files))"
    using assms(1,2) by (simp add: scan_skipped)
  moreover have "scan ratio root start files =
      scan ratio root (process_file ratio root (scan ratio root start pre) f) post"
    using assms(1,2) by (simp add: scan_def)
  ultimately show ?thesis
    using every_file_accounted [of _ files ratio root] by (simp add: analyze_results)
qed

section \<open>The pass on the example files\<close>

lemma track_a_seen: "is_music track_a \<and> observed_digest track_a = Some ''d1''"
  by code_simp

lemma track_b_seen: "is_music track_b \<and> observed_digest track_b = Some ''d1''"
  by code_simp

lemma tracks_a_b_paths: "distinct (map full_path_of [track_a, track_b])"
  by code_simp

theorem first_kept_later_duplicates_witness:
  "is_music track_a \<and> observed_digest track_a = Some ''d1''
   \<and> is_music track_b \<and> observed_digest track_b = Some ''d1''
   \<and> distinct (map full_path_of [track_a, track_b])
   \<and> full_path_of track_a
        \<in> set (plan_paths (proposed_moves (scan lcs_ratio ''/music'' start [track_a, track_b])))
   \<and> representative (scan lcs_ratio ''/music'' start [track_a, track_b]) ''d1''
        = Some (full_path_of track_a)
   \<and> full_path_of track_b
        \<in> set (dd_get (duplicates (scan lcs_ratio ''/music'' start [track_a, track_b])) ''d1'')
   \<and> full_path_of track_b
        \<notin> set (plan_paths (proposed_moves (scan lcs_ratio ''/music'' start [track_a, track_b])))"
proof -
  have a: "[track_a, track_b] = [] @ track_a # [track_b]"
    and b: "[track_a, track_b] = [track_a] @ track_b # []"
    by simp_all
  have "full_path_of track_a
        \<in> set (plan_paths (proposed_moves (scan lcs_ratio ''/music'' start [track_a, track_b])))
     \<and> representative (scan lcs_ratio ''/music'' start [track_a, track_b]) ''d1''
        = Some (full_path_of track_a)"
    using first_kept_later_duplicates [OF a conjunct1 [OF track_a_seen]
        conjunct2 [OF track_a_seen] tracks_a_b_paths, of lcs_ratio "''/music''"]
    by simp
  moreover have "full_path_of track_b
        \<in> set (dd_get (duplicates (scan lcs_ratio ''/music'' start [track_a, track_b])) ''d1'')
     \<and> full_path_of track_b
        \<notin> set (plan_paths (proposed_moves (scan lcs_ratio ''/music'' start [track_a, track_b])))"
  proof -
    have earlier: "\<exists>g \<in> set [track_a]. is_music g \<and> observed_digest g = Some ''d1''"
      using track_a_seen by simp
    show ?thesis
      using first_kept_later_duplicates [OF b conjunct1 [OF track_b_seen]
        conjunct2 [OF track_b_seen] tracks_a_b_paths, of lcs_ratio "''/music''",
        THEN conjunct2, THEN conjunct1, THEN mp, OF earlier]
      by (elim conjE) (intro conjI)
  qed
  ultimately show ?thesis
    using track_a_seen track_b_seen tracks_a_b_paths by simp
qed

text \<open>
  C3 as the spec states it fails: a file whose artist tag is present and empty has
  metadata with an empty artist field, goes into the move plan and is not skipped.
\<close>

theorem empty_artist_is_planned:
  "map_option artist
     (get_audio_metadata (full_path_of track_empty_artist) (tag_data track_empty_artist))
     = Some []
   \<and> is_music track_empty_artist
   \<and> (case analyze_music_directory lcs_ratio ''/music'' [track_empty_artist] of
        (moves, dups, skipped) \<Rightarrow>
          full_path_of track_empty_artist \<in> set (plan_paths moves) \<and> skipped = [])"
  by code_simp

lemma track_no_artist_facts:
  "is_music track_no_artist
   \<and> distinct (map full_path_of [track_a, track_no_artist])
   \<and> tag_data track_no_artist = Tags [(''title'', [''Untitled''])]"
  by code_simp

theorem no_artist_tag_skipped_once_witness:
  "track_no_artist \<in> set [track_a, track_no_artist]
   \<and> is_music track_no_artist
   \<and> distinct (map full_path_of [track_a, track_no_artist])
   \<and> tag_data track_no_artist = Tags [(''title'', [''Untitled''])]
   \<and> map_of [(''title'', [''Untitled''])] ''artist'' = None
   \<and> full_path_of track_no_artist
        \<notin> set (plan_paths (fst (analyze_music_directory lcs_ratio ''/music''
                                    [track_a, track_no_artist])))
   \<and> filter (\<lambda>e. skip_path e = full_path_of track_no_artist)
        (snd (snd (analyze_music_directory lcs_ratio ''/music'' [track_a, track_no_artist])))
        = [\<lparr>skip_path = full_path_of track_no_artist,
             reason = ''Missing required metadata (title/artist)''\<rparr>]"
proof -
  have mem: "track_no_artist \<in> set [track_a, track_no_artist]"
    by simp
  have tags: "\<forall>tags. tag_data track_no_artist = Tags tags \<longrightarrow> map_of tags ''artist'' = None"
    using track_no_artist_facts by simp
  show ?thesis
    using no_artist_tag_skipped_once [OF mem conjunct1 [OF track_no_artist_facts]
        conjunct1 [OF conjunct2 [OF track_no_artist_facts]] tags, of lcs_ratio "''/music''"]
      track_no_artist_facts
    by (simp add: case_prod_beta)
qed

text \<open>
  C9 as the spec states it fails: for a file that cannot be opened, the tag library raises
  first, \<open>get_audio_metadata\<close> returns nothing, and the only entry of the skip list gives
  the reason for missing metadata; the error of the file is not in it, and the file is
  never hashed.
\<close>

theorem unreadable_file_generic_reason:
  "is_music track_unreadable
   \<and> tag_data track_unreadable = Unreadable
   \<and> hash_result track_unreadable = Inl ''[Errno 13] Permission denied''
   \<and> snd (snd (analyze_music_directory lcs_ratio ''/music'' [track_unreadable]))
       = [\<lparr>skip_path = ''/music/in/f.mp3'',
            reason = ''Missing required metadata (title/artist)''\<rparr>]
   \<and> \<lparr>skip_path = ''/music/in/f.mp3'',
       reason = ''Error processing file: [Errno 13] Permission denied''\<rparr>
        \<notin> set (snd (snd (analyze_music_directory lcs_ratio ''/music'' [track_unreadable])))"
  by code_simp

lemma track_bad_sector_facts:
  "is_music track_bad_sector
   \<and> get_audio_metadata (full_path_of track_bad_sector) (tag_data track_bad_sector)
       = Some \<lparr>artist = ''Nobody'', album = [], title = ''Noise'', tracknumber = ''00''\<rparr>
   \<and> hash_result track_bad_sector = Inl ''[Errno 5] Input/output error''"
  by code_simp

lemma track_unreadable_facts:
  "is_music track_unreadable
   \<and> tag_data track_unreadable = Unreadable
   \<and> get_audio_metadata (full_path_of track_unreadable) (tag_data track_unreadable) = None"
  by code_simp

theorem processing_error_is_skipped_witness:
  "is_music track_bad_sector
   \<and> MusicFile (full_path_of track_bad_sector) track_bad_sector
       = Inl ''[Errno 5] Input/output error''
   \<and> \<lparr>skip_path = full_path_of track_bad_sector,
       reason = ''Error processing file: [Errno 5] Input/output error''\<rparr>
        \<in> set (snd (snd (analyze_music_directory lcs_ratio ''/music''
                           [track_bad_sector, track_unreadable, track_a])))
   \<and> is_music track_unreadable
   \<and> tag_data track_unreadable = Unreadable
   \<and> \<lparr>skip_path = full_path_of track_unreadable,
       reason = ''Missing required metadata (title/artist)''\<rparr>
        \<in> set (snd (snd (analyze_music_directory lcs_ratio ''/music''
                           [track_bad_sector, track_unreadable, track_a])))
   \<and> full_path_of track_a
        \<in> set (plan_paths (fst (analyze_music_directory lcs_ratio ''/music''
                                    [track_bad_sector, track_unreadable, track_a])))
          \<union> set (duplicate_paths (fst (snd (analyze_music_directory lcs_ratio ''/music''
                                    [track_bad_sector, track_unreadable, track_a]))))
          \<union> skip_path ` set (snd (snd (analyze_music_directory lcs_ratio ''/music''
                                    [track_bad_sector, track_unreadable, track_a])))"
proof -
  let ?files = "[track_bad_sector, track_unreadable, track_a]"
  have first: "?files = [] @ track_bad_sector # [track_unreadable, track_a]"
    and second: "?files = [track_bad_sector] @ track_unreadable # [track_a]"
    by simp_all
  have music1: "is_music track_bad_sector"
    and md: "get_audio_metadata (full_path_of track_bad_sector) (tag_data track_bad_sector)
       = Some \<lparr>artist = ''Nobody'', album = [], title = ''Noise'', tracknumber = ''00''\<rparr>"
    using track_bad_sector_facts by blast+
  have "hash_result track_bad_sector = Inl ''[Errno 5] Input/output error''"
    using track_bad_sector_facts by blast
  then have raised: "MusicFile (full_path_of track_bad_sector) track_bad_sector
       = Inl ''[Errno 5] Input/output error''"
    by (rule hash_error_raises)
  then have raised': "tag_data track_bad_sector = Unreadable
      \<or> MusicFile (full_path_of track_bad_sector) track_bad_sector
           = Inl ''[Errno 5] Input/output error''"
    by (rule disjI2)
  have music2: "is_music track_unreadable"
    and tags: "tag_data track_unreadable = Unreadable"
    and none: "get_audio_metadata (full_path_of track_unreadable) (tag_data track_unreadable)
       = None"
    using track_unreadable_facts by blast+
  from tags have tags': "tag_data track_unreadable = Unreadable
      \<or> MusicFile (full_path_of track_unreadable) track_unreadable = Inl []"
    by (rule disjI1)
  have a: "is_music track_a"
    using track_a_seen by blast
  have one: "\<lparr>skip_path = full_path_of track_bad_sector,
       reason = ''Error processing file: [Errno 5] Input/output error''\<rparr>
        \<in> set (snd (snd (analyze_music_directory lcs_ratio ''/music'' ?files)))
     \<and> full_path_of track_a
        \<in> set (plan_paths (fst (analyze_music_directory lcs_ratio ''/music'' ?files)))
          \<union> set (duplicate_paths (fst (snd (analyze_music_directory lcs_ratio ''/music''
                                    ?files))))
          \<union> skip_path ` set (snd (snd (analyze_music_directory lcs_ratio ''/music''
                                    ?files)))"
    using processing_error_is_skipped [OF first music1 raised', of lcs_ratio "''/music''"] a
    by (simp add: case_prod_beta md)
  have two: "\<lparr>skip_path = full_path_of track_unreadable,
       reason = ''Missing required metadata (title/artist)''\<rparr>
        \<in> set (snd (snd (analyze_music_directory lcs_ratio ''/music'' ?files)))"
    using processing_error_is_skipped [OF second music2 tags', of lcs_ratio "''/music''"]
    by (simp add: case_prod_beta none)
  show ?thesis
    using one two music1 music2 raised tags by simp
qed

section \<open>Album resolution\<close>

lemma find_similar_loop_none:
  "\<forall>e \<in> set names. \<not> (hi < ratio nn (normalize_string e) \<and> t \<le> ratio nn (normalize_string e)) \<Longrightarrow>
   find_similar_loop ratio t nn names hi best = best"
  by (induction names) (auto simp: Let_def)

lemma find_similar_loop_found:
  "\<exists>e \<in> set names. hi < ratio nn (normalize_string e) \<and> t \<le> ratio nn (normalize_string e) \<Longrightarrow>
   \<exists>pre m post. names = pre @ m # post
      \<and> find_similar_loop ratio t nn names hi best = Some m
      \<and> hi < ratio nn (normalize_string m) \<and> t \<le> ratio nn (normalize_string m)
      \<and> (\<forall>e \<in> set pre. ratio nn (normalize_string e) < ratio nn (normalize_string m))
      \<and> (\<forall>e \<in> set post. ratio nn (normalize_string e) \<le> ratio nn (normalize_string m))"
proof (induction names arbitrary: hi best)
  case Nil
  then show ?case by simp
next
  case (Cons x xs)
  let ?s = "\<lambda>e. ratio nn (normalize_string e)"
  show ?case
  proof (cases "hi < ?s x \<and> t \<le> ?s x")
    case True
    then have step: "find_similar_loop ratio t nn (x # xs) hi best
        = find_similar_loop ratio t nn xs (?s x) (Some x)"
      by (simp add: Let_def)
    show ?thesis
    proof (cases "\<exists>e \<in> set xs. ?s x < ?s e \<and> t \<le> ?s e")
      case better: True
      from Cons.IH [OF better, of "Some x"] obtain pre m post where
        IH: "xs = pre @ m # post"
          "find_similar_loop ratio t nn xs (?s x) (Some x) = Some m"
          "?s x < ?s m" "t \<le> ?s m"
          "\<forall>e \<in> set pre. ?s e < ?s m" "\<forall>e \<in> set post. ?s e \<le> ?s m"
        by (elim exE conjE)
      have "x # xs = (x # pre) @ m # post
        \<and> find_similar_loop ratio t nn (x # xs) hi best = Some m
        \<and> hi < ?s m \<and> t \<le> ?s m
        \<and> (\<forall>e \<in> set (x # pre). ?s e < ?s m)
        \<and> (\<forall>e \<in> set post. ?s e \<le> ?s m)"
        using IH True step by simp
      then show ?thesis by (intro exI)
    next
      case none: False
      then have "find_similar_loop ratio t nn xs (?s x) (Some x) = Some x"
        by (intro find_similar_loop_none) simp
      moreover have "\<forall>e \<in> set xs. ?s e \<le> ?s x"
      proof
        fix e assume "e \<in> set xs"
        with none have "\<not> (?s x < ?s e \<and> t \<le> ?s e)" by simp
        with True show "?s e \<le> ?s x" by linarith
      qed
      ultimately have "x # xs = [] @ x # xs
        \<and> find_similar_loop ratio t nn (x # xs) hi best = Some x
        \<and> hi < ?s x \<and> t \<le> ?s x
        \<and> (\<forall>e \<in> set []. ?s e < ?s x)
        \<and> (\<forall>e \<in> set xs. ?s e \<le> ?s x)"
        using True step by simp
      then show ?thesis by (intro exI)
    qed
  next
    case False
    then have step: "find_similar_loop ratio t nn (x # xs) hi best
        = find_similar_loop ratio t nn xs hi best"
      by (auto simp: Let_def)
    have later: "\<exists>e \<in> set xs. hi < ?s e \<and> t \<le> ?s e"
      using Cons.prems False by auto
    from Cons.IH [OF later, of best] obtain pre m post where
      IH: "xs = pre @ m # post"
        "find_similar_loop ratio t nn xs hi best = Some m"
        "hi < ?s m" "t \<le> ?s m"
        "\<forall>e \<in> set pre. ?s e < ?s m" "\<forall>e \<in> set post. ?s e \<le> ?s m"
      by (elim exE conjE)
    have "?s x < ?s m"
      using False IH(3,4) by linarith
    then have "x # xs = (x # pre) @ m # post
        \<and> find_similar_loop ratio t nn (x # xs) hi best = Some m
        \<and> hi < ?s m \<and> t \<le> ?s m
        \<and> (\<forall>e \<in> set (x # pre). ?s e < ?s m)
        \<and> (\<forall>e \<in> set post. ?s e \<le> ?s m)"
      using IH step by simp
    then show ?thesis by (intro exI)
  qed
qed


lemma find_similar_name_none:
  "\<forall>e \<in> set names. similarity ratio name e < 85 \<Longrightarrow>
   find_similar_name ratio name names 85 = None"
  unfolding find_similar_name_def similarity_def
  by (rule find_similar_loop_none) (simp add: not_le)

lemma find_similar_name_found:
  assumes "\<exists>e \<in> set names. 85 \<le> similarity ratio name e"
  shows "\<exists>pre m post. names = pre @ m # post
      \<and> find_similar_name ratio name names 85 = Some m
      \<and> 85 \<le> similarity ratio name m
      \<and> (\<forall>e \<in> set pre. similarity ratio name e < similarity ratio name m)
      \<and> (\<forall>e \<in> set post. similarity ratio name e \<le> similarity ratio name m)"
proof -
  let ?nn = "normalize_string name"
  from assms have "\<exists>e \<in> set names. 0 < ratio ?nn (normalize_string e)
      \<and> 85 \<le> ratio ?nn (normalize_string e)"
    unfolding similarity_def by (elim bexE, intro bexI conjI) simp_all
  from find_similar_loop_found [where names = names and hi = 0 and ratio = ratio
      and nn = ?nn and t = 85 and best = None, OF this] obtain pre m post where
    "names = pre @ m # post"
    "find_similar_loop ratio 85 ?nn names 0 None = Some m"
    "85 \<le> ratio ?nn (normalize_string m)"
    "\<forall>e \<in> set pre. ratio ?nn (normalize_string e) < ratio ?nn (normalize_string m)"
    "\<forall>e \<in> set post. ratio ?nn (normalize_string e) \<le> ratio ?nn (normalize_string m)"
    by (elim exE conjE)
  then have "names = pre @ m # post
      \<and> find_similar_name ratio name names 85 = Some m
      \<and> 85 \<le> similarity ratio name m
      \<and> (\<forall>e \<in> set pre. similarity ratio name e < similarity ratio name m)
      \<and> (\<forall>e \<in> set post. similarity ratio name e \<le> similarity ratio name m)"
    by (simp add: find_similar_name_def similarity_def)
  then show ?thesis by (intro exI)
qed

lemma dict_set_fresh: "map_of al k = None \<Longrightarrow> dict_set k v al = al @ [(k, v)]"
  by (induction al) (auto split: if_splits)

lemma map_fst_dict_set:
  "map fst (dict_set k v al) =
     (if k \<in> set (map fst al) then map fst al else map fst al @ [k])"
  by (induction al) (force simp: image_iff)+

lemma dict_set_keys: "fst ` set (dict_set k v al) = insert k (fst ` set al)"
proof -
  have "set (map fst (dict_set k v al)) = insert k (set (map fst al))"
    unfolding map_fst_dict_set by auto
  then show ?thesis
    by simp
qed

lemma dict_set_value:
  "(a, b) \<in> set (dict_set k v al) \<Longrightarrow> b = v \<or> (\<exists>a'. (a', b) \<in> set al)"
  by (induction al) (auto split: if_splits)

lemma dict_set_values: "snd ` set (dict_set k v al) \<subseteq> insert v (snd ` set al)"
proof
  fix b assume "b \<in> snd ` set (dict_set k v al)"
  then obtain a where "(a, b) \<in> set (dict_set k v al)"
    by auto
  then have "b = v \<or> (\<exists>a'. (a', b) \<in> set al)"
    by (rule dict_set_value)
  then show "b \<in> insert v (snd ` set al)"
    by force
qed

lemma artist_album_mappings:
  "album_mappings (snd (get_canonical_artist a dm)) = album_mappings dm"
  by (auto simp: get_canonical_artist_def store_artist_def Let_def split: option.splits)

lemma store_album_fresh:
  "map_of (album_mappings dm ca) key = None \<Longrightarrow>
   store_album ca key name dm =
     dm\<lparr>album_mappings := (album_mappings dm)(ca := album_mappings dm ca @ [(key, name)])\<rparr>"
  by (simp add: store_album_def dict_set_fresh)

lemma store_album_empty_name:
  assumes "empty_name_has_key dm" and "name = [] \<longrightarrow> key = []"
  shows "empty_name_has_key (store_album ca key name dm)"
  unfolding empty_name_has_key_def
proof (intro allI impI)
  fix a
  assume e: "[] \<in> snd ` set (album_mappings (store_album ca key name dm) a)"
  show "[] \<in> fst ` set (album_mappings (store_album ca key name dm) a)"
  proof (cases "a = ca")
    case False
    then show ?thesis
      using e assms(1) by (simp add: store_album_def empty_name_has_key_def)
  next
    case True
    from e have "[] \<in> snd ` set (dict_set key name (album_mappings dm ca))"
      by (simp add: store_album_def True)
    then have "[] = name \<or> [] \<in> snd ` set (album_mappings dm ca)"
      using dict_set_values [of key name "album_mappings dm ca"] by auto
    then have "[] = key \<or> [] \<in> fst ` set (album_mappings dm ca)"
      using assms by (auto simp: empty_name_has_key_def)
    then show ?thesis
      by (auto simp: store_album_def True dict_set_keys)
  qed
qed

lemma normalize_string_Nil: "normalize_string [] = []"
  by (simp add: normalize_string_def lower_def)

lemma artist_empty_name:
  "empty_name_has_key dm \<Longrightarrow> empty_name_has_key (snd (get_canonical_artist a dm))"
  by (simp add: empty_name_has_key_def artist_album_mappings)

lemma album_empty_name:
  assumes "empty_name_has_key dm"
  shows "empty_name_has_key (snd (get_canonical_album ratio a b dm))"
proof -
  obtain ca dm1 where ca: "get_canonical_artist a dm = (ca, dm1)"
    by (cases "get_canonical_artist a dm")
  have dm1: "empty_name_has_key dm1"
    using artist_empty_name [OF assms, of a] by (simp add: ca)
  have raw: "empty_name_has_key (store_album ca (normalize_string b) b dm1)"
    using dm1 by (rule store_album_empty_name) (simp add: normalize_string_Nil)
  have named: "empty_name_has_key (store_album ca (normalize_string b) m dm1)" if "m \<noteq> []" for m
    using dm1 by (rule store_album_empty_name) (simp add: that)
  show ?thesis
    using dm1 raw named
    by (simp add: get_canonical_album_def ca Let_def split: option.splits)
qed

lemma evolves_empty_name:
  "evolves ratio dm dm' \<Longrightarrow> empty_name_has_key dm \<Longrightarrow> empty_name_has_key dm'"
  by (induction rule: evolves.induct) (simp_all add: artist_empty_name album_empty_name)

lemma reachable_empty_name: "reachable ratio dm \<Longrightarrow> empty_name_has_key dm"
  unfolding reachable_def
  by (erule evolves_empty_name) (simp add: empty_name_has_key_def DirectoryManager_def)

lemma reachable_artist: "reachable ratio dm \<Longrightarrow> reachable ratio (snd (get_canonical_artist a dm))"
  unfolding reachable_def by (rule evolves_artist)

theorem album_fuzzy_resolution:
  assumes reach: "reachable ratio dm"
    and empty: "\<forall>s. s \<noteq> [] \<longrightarrow> ratio s [] < 85"
    and ca: "get_canonical_artist raw_artist dm = (ca, dm1)"
    and miss: "map_of (album_mappings dm1 ca) (normalize_string raw_album) = None"
  shows "((\<exists>e \<in> set (map snd (album_mappings dm1 ca)). 85 \<le> similarity ratio raw_album e) \<longrightarrow>
           (\<exists>pre m post. map snd (album_mappings dm1 ca) = pre @ m # post
              \<and> 85 \<le> similarity ratio raw_album m
              \<and> (\<forall>e \<in> set pre. similarity ratio raw_album e < similarity ratio raw_album m)
              \<and> (\<forall>e \<in> set post. similarity ratio raw_album e \<le> similarity ratio raw_album m)
              \<and> get_canonical_album ratio raw_artist raw_album dm =
                  (m, dm1\<lparr>album_mappings := (album_mappings dm1)
                           (ca := album_mappings dm1 ca @ [(normalize_string raw_album, m)])\<rparr>)))
       \<and> ((\<forall>e \<in> set (map snd (album_mappings dm1 ca)). similarity ratio raw_album e < 85) \<longrightarrow>
            get_canonical_album ratio raw_artist raw_album dm =
              (raw_album, dm1\<lparr>album_mappings := (album_mappings dm1)
                           (ca := album_mappings dm1 ca @ [(normalize_string raw_album, raw_album)])\<rparr>))"
proof (intro conjI impI)
  let ?names = "map snd (album_mappings dm1 ca)"
  let ?key = "normalize_string raw_album"
  assume "\<exists>e \<in> set ?names. 85 \<le> similarity ratio raw_album e"
  from find_similar_name_found [OF this] obtain pre m post where
    m: "?names = pre @ m # post"
      "find_similar_name ratio raw_album ?names 85 = Some m"
      "85 \<le> similarity ratio raw_album m"
      "\<forall>e \<in> set pre. similarity ratio raw_album e < similarity ratio raw_album m"
      "\<forall>e \<in> set post. similarity ratio raw_album e \<le> similarity ratio raw_album m"
    by (elim exE conjE)
  have "m \<noteq> []"
  proof
    assume "m = []"
    then have "85 \<le> ratio ?key []"
      using m(3) by (simp add: similarity_def normalize_string_Nil)
    with empty have "?key = []"
      by (metis not_le)
    moreover have "[] \<in> snd ` set (album_mappings dm1 ca)"
      using m(1) \<open>m = []\<close> by (metis in_set_conv_decomp set_map)
    moreover have "empty_name_has_key dm1"
      using reachable_empty_name [OF reachable_artist [OF reach, of raw_artist]] by (simp add: ca)
    ultimately have "?key \<in> fst ` set (album_mappings dm1 ca)"
      by (simp add: empty_name_has_key_def)
    with miss show False
      by (simp add: map_of_eq_None_iff)
  qed
  then have "get_canonical_album ratio raw_artist raw_album dm = (m, store_album ca ?key m dm1)"
    by (simp add: get_canonical_album_def ca miss m(2))
  then have "?names = pre @ m # post
      \<and> 85 \<le> similarity ratio raw_album m
      \<and> (\<forall>e \<in> set pre. similarity ratio raw_album e < similarity ratio raw_album m)
      \<and> (\<forall>e \<in> set post. similarity ratio raw_album e \<le> similarity ratio raw_album m)
      \<and> get_canonical_album ratio raw_artist raw_album dm =
          (m, dm1\<lparr>album_mappings := (album_mappings dm1)
                   (ca := album_mappings dm1 ca @ [(?key, m)])\<rparr>)"
    using m by (simp add: store_album_fresh [OF miss])
  then show "\<exists>pre m post. ?names = pre @ m # post
      \<and> 85 \<le> similarity ratio raw_album m
      \<and> (\<forall>e \<in> set pre. similarity ratio raw_album e < similarity ratio raw_album m)
      \<and> (\<forall>e \<in> set post. similarity ratio raw_album e \<le> similarity ratio raw_album m)
      \<and> get_canonical_album ratio raw_artist raw_album dm =
          (m, dm1\<lparr>album_mappings := (album_mappings dm1)
                   (ca := album_mappings dm1 ca @ [(?key, m)])\<rparr>)"
    by (intro exI)
next
  assume "\<forall>e \<in> set (map snd (album_mappings dm1 ca)). similarity ratio raw_album e < 85"
  then have "find_similar_name ratio raw_album (map snd (album_mappings dm1 ca)) 85 = None"
    by (rule find_similar_name_none)
  then show "get_canonical_album ratio raw_artist raw_album dm =
      (raw_album, dm1\<lparr>album_mappings := (album_mappings dm1)
                   (ca := album_mappings dm1 ca @ [(normalize_string raw_album, raw_album)])\<rparr>)"
    by (simp add: get_canonical_album_def ca miss store_album_fresh [OF miss])
qed

lemma norm_Night: "normalize_string ''A Night at the Opera'' = ''a night at the opera''"
  by code_simp

lemma norm_Nite: "normalize_string ''A Nite at the Opera'' = ''a nite at the opera''"
  by code_simp

lemma lcs_ratio_Nite: "lcs_ratio ''a nite at the opera'' ''a night at the opera'' = 92"
  by code_simp

lemma lcs_ratio_empty: "s \<noteq> [] \<Longrightarrow> lcs_ratio s [] = 0"
  by (simp add: lcs_ratio_def)

text \<open>The registry after "A Night at the Opera" has been resolved for a first artist.\<close>

lemma first_album:
  "get_canonical_album ratio a ''A Night at the Opera'' DirectoryManager =
     (''A Night at the Opera'',
      \<lparr>artist_mappings = [normalize_artist_name a \<mapsto> a],
       album_mappings = (\<lambda>_. [])(a := [(''a night at the opera'', ''A Night at the Opera'')]),
       canonical_cases = [normalize_artist_name a \<mapsto> a]\<rparr>)"
  by (simp add: get_canonical_album_def get_canonical_artist_def DirectoryManager_def
                store_artist_def store_album_def find_similar_name_def norm_Night Let_def)

text \<open>
  The example of C6 for any scorer that gives the two normalised names 85 or more, and
  any artist.
\<close>

lemma nite_resolves_to_night:
  assumes "85 \<le> ratio ''a nite at the opera'' ''a night at the opera''"
  shows "fst (get_canonical_album ratio a ''A Nite at the Opera''
           (snd (get_canonical_album ratio a ''A Night at the Opera'' DirectoryManager)))
         = ''A Night at the Opera''"
proof -
  have "0 < ratio ''a nite at the opera'' ''a night at the opera''"
    using assms by simp
  then have "fst (get_canonical_album ratio a ''A Nite at the Opera''
      \<lparr>artist_mappings = [normalize_artist_name a \<mapsto> a],
       album_mappings = (\<lambda>_. [])(a := [(''a night at the opera'', ''A Night at the Opera'')]),
       canonical_cases = [normalize_artist_name a \<mapsto> a]\<rparr>) = ''A Night at the Opera''"
    using assms
    by (simp add: get_canonical_album_def get_canonical_artist_def find_similar_name_def
                  norm_Night norm_Nite Let_def)
  then show ?thesis
    by (simp only: first_album snd_conv)
qed

theorem album_fuzzy_resolution_witness:
  "reachable lcs_ratio
     (snd (get_canonical_album lcs_ratio ''Queen'' ''A Night at the Opera'' DirectoryManager))
   \<and> lcs_ratio ''x'' [] < 85
   \<and> map_of [(''a night at the opera'', ''A Night at the Opera'')]
        (normalize_string ''A Nite at the Opera'') = None
   \<and> 85 \<le> similarity lcs_ratio ''A Nite at the Opera'' ''A Night at the Opera''
   \<and> fst (get_canonical_album lcs_ratio ''Queen'' ''A Nite at the Opera''
           (snd (get_canonical_album lcs_ratio ''Queen'' ''A Night at the Opera''
                  DirectoryManager)))
       = ''A Night at the Opera''"
proof -
  let ?dm = "snd (get_canonical_album lcs_ratio ''Queen'' ''A Night at the Opera''
                   DirectoryManager)"
  have reach: "reachable lcs_ratio ?dm"
    unfolding reachable_def by (intro evolves.intros)
  have empty: "\<forall>s. s \<noteq> [] \<longrightarrow> lcs_ratio s [] < 85"
    by (simp add: lcs_ratio_empty)
  have ca: "get_canonical_artist ''Queen'' ?dm = (''Queen'', ?dm)"
    by (simp add: first_album get_canonical_artist_def Let_def)
  have albums: "album_mappings ?dm ''Queen''
      = [(''a night at the opera'', ''A Night at the Opera'')]"
    by (simp add: first_album)
  have miss: "map_of (album_mappings ?dm ''Queen'') (normalize_string ''A Nite at the Opera'')
      = None"
    by (simp add: albums norm_Nite)
  have close: "85 \<le> similarity lcs_ratio ''A Nite at the Opera'' ''A Night at the Opera''"
    by (simp add: similarity_def norm_Nite norm_Night lcs_ratio_Nite)
  then have "\<exists>e \<in> set (map snd (album_mappings ?dm ''Queen'')).
      85 \<le> similarity lcs_ratio ''A Nite at the Opera'' e"
    by (simp add: albums)
  from album_fuzzy_resolution [OF reach empty ca miss, THEN conjunct1, THEN mp, OF this]
  obtain pre m post where
    "map snd (album_mappings ?dm ''Queen'') = pre @ m # post"
    and "fst (get_canonical_album lcs_ratio ''Queen'' ''A Nite at the Opera'' ?dm) = m"
    by (elim exE conjE) simp
  then have "fst (get_canonical_album lcs_ratio ''Queen'' ''A Nite at the Opera'' ?dm)
      = ''A Night at the Opera''"
    by (simp add: albums Cons_eq_append_conv)
  then show ?thesis
    using reach close miss by (simp add: albums lcs_ratio_empty)
qed

section \<open>Normalising twice\<close>

























lemma match_Lit:
  "match_atoms ic (Lit x # as) t = Some r \<longleftrightarrow>
     (\<exists>c t'. t = c # t' \<and> same_char ic c x \<and> match_atoms ic as t' = Some r)"
  by (cases t) auto


























section \<open>Names of the form A and The Bs\<close>

subsection \<open>Characters\<close>










subsection \<open>Literals against a word\<close>








subsection \<open>No trigger at the start of a plain word\<close>












subsection \<open>Lists of words\<close>























text \<open>
  The exception needs exactly one whitespace character between the ampersand and "the":
  with two spaces the lookahead meets a space, and the clause is stripped.
\<close>

lemma amp_two_spaces_stripped:
  "normalize_artist_name ''Florence &  The Machine'' = ''florence''"
  by code_simp




end
